theory Spec2Isabelle
  imports Complex_Main
begin

section \<open>JavaScript strings\<close>

text \<open>
  A JavaScript string is modelled as a \<^typ>\<open>string\<close>: one \<^typ>\<open>char\<close> per code unit, for
  the code units 0 to 255. The functions below are the built-ins the repository calls,
  restricted to that range.
\<close>

text \<open>White space and line terminators, as \<^verbatim>\<open>\s\<close> and \<^verbatim>\<open>String.prototype.trim\<close> read
  them: tab, line feed, vertical tab, form feed, carriage return, space, no-break space.\<close>

definition isSpace :: "char \<Rightarrow> bool" where
  "isSpace c = (let n = (of_char c :: int) in (9 \<le> n \<and> n \<le> 13) \<or> n = 32 \<or> n = 160)"

definition trim :: "string \<Rightarrow> string" where
  "trim s = rev (dropWhile isSpace (rev (dropWhile isSpace s)))"

definition toLowerChar :: "char \<Rightarrow> char" where
  "toLowerChar c =
     (let n = (of_char c :: int)
      in if (65 \<le> n \<and> n \<le> 90) \<or> (192 \<le> n \<and> n \<le> 222 \<and> n \<noteq> 215)
         then char_of (n + 32) else c)"

definition toLowerCase :: "string \<Rightarrow> string" where
  "toLowerCase s = map toLowerChar s"

text \<open>\<^verbatim>\<open>s.startsWith(p)\<close> and \<^verbatim>\<open>s.endsWith(p)\<close>.\<close>

definition startsWith :: "string \<Rightarrow> string \<Rightarrow> bool" where
  "startsWith s p = (take (length p) s = p)"

definition endsWith :: "string \<Rightarrow> string \<Rightarrow> bool" where
  "endsWith s p = (length p \<le> length s \<and> drop (length s - length p) s = p)"

text \<open>\<^verbatim>\<open>a <= b\<close> on strings: code units compared from the left, a proper prefix first.\<close>

fun str_le :: "string \<Rightarrow> string \<Rightarrow> bool" where
  "str_le [] ys = True"
| "str_le (x # xs) [] = False"
| "str_le (x # xs) (y # ys) =
     (if x = y then str_le xs ys else (of_char x :: int) < of_char y)"

text \<open>\<^verbatim>\<open>a >= b\<close> on strings.\<close>

definition str_ge :: "string \<Rightarrow> string \<Rightarrow> bool" where
  "str_ge a b = str_le b a"

text \<open>\<^verbatim>\<open>xs.slice(-n)\<close>: the last \<open>n\<close> elements, all of them when there are fewer.\<close>

definition sliceLast :: "nat \<Rightarrow> 'a list \<Rightarrow> 'a list" where
  "sliceLast n xs = drop (length xs - n) xs"

text \<open>\<^verbatim>\<open>s.slice(0, n)\<close>.\<close>

definition sliceFirst :: "nat \<Rightarrow> 'a list \<Rightarrow> 'a list" where
  "sliceFirst n xs = take n xs"

section \<open>Numbers as text\<close>

definition digitChar :: "int \<Rightarrow> char" where
  "digitChar n = ''0123456789abcdefghijklmnopqrstuvwxyz'' ! nat n"

text \<open>\<^verbatim>\<open>n.toString(36)\<close> on an integer: the digits in base 36, most significant first.\<close>

function base36 :: "int \<Rightarrow> string" where
  "base36 n = (if n < 36 then [digitChar n] else base36 (n div 36) @ [digitChar (n mod 36)])"
  by pat_completeness auto
termination
  by (relation "measure nat") auto

declare base36.simps [simp del]

definition toString36 :: "int \<Rightarrow> string" where
  "toString36 n = (if n < 0 then CHR ''-'' # base36 (- n) else base36 n)"

text \<open>A non-negative number in decimal, padded with zeros on the left to \<open>w\<close> digits.\<close>

fun padDec :: "nat \<Rightarrow> int \<Rightarrow> string" where
  "padDec 0 n = []"
| "padDec (Suc w) n = padDec w (n div 10) @ [digitChar (n mod 10)]"

section \<open>Dates\<close>

text \<open>
  A \<^verbatim>\<open>Date\<close> is its time value: milliseconds since 1970-01-01T00:00:00Z, an \<^typ>\<open>int\<close>.
  \<^verbatim>\<open>Date.now()\<close> is a parameter \<open>now\<close> of every function that reads the clock. The
  calendar is the proleptic Gregorian one of ECMAScript, computed on day numbers
  (days since 1970-01-01).
\<close>

definition msPerDay :: int where
  "msPerDay = 86400000"

definition Day :: "int \<Rightarrow> int" where
  "Day t = t div msPerDay"

text \<open>Year, month (1 to 12) and day of the month of a day number.\<close>

definition civilFromDays :: "int \<Rightarrow> int \<times> int \<times> int" where
  "civilFromDays z0 =
     (let z = z0 + 719468;
          era = z div 146097;
          doe = z - era * 146097;
          yoe = (doe - doe div 1460 + doe div 36524 - doe div 146096) div 365;
          doy = doe - (365 * yoe + yoe div 4 - yoe div 100);
          mp = (5 * doy + 2) div 153;
          d = doy - (153 * mp + 2) div 5 + 1;
          m = (if mp < 10 then mp + 3 else mp - 9);
          y = yoe + era * 400
      in (if m \<le> 2 then y + 1 else y, m, d))"

text \<open>The day number of the first day of month \<open>m\<close> of year \<open>y\<close>, plus \<open>d - 1\<close>
  (ECMAScript's MakeDay: a day beyond the month's end runs into the next month).\<close>

definition daysFromCivil :: "int \<Rightarrow> int \<Rightarrow> int \<Rightarrow> int" where
  "daysFromCivil y0 m d =
     (let y = (if m \<le> 2 then y0 - 1 else y0);
          era = y div 400;
          yoe = y - era * 400;
          doy = (153 * (if m > 2 then m - 3 else m + 9) + 2) div 5 + d - 1;
          doe = yoe * 365 + yoe div 4 - yoe div 100 + doy
      in era * 146097 + doe - 719468)"

text \<open>\<^verbatim>\<open>getDay()\<close> of a day number: 0 is Sunday, 1 is Monday, ..., 6 is Saturday.\<close>

definition weekDay :: "int \<Rightarrow> int" where
  "weekDay dn = (dn + 4) mod 7"

text \<open>The year of \<^verbatim>\<open>toISOString\<close>: four digits from 0 to 9999, a sign and six digits
  otherwise.\<close>

definition isoYear :: "int \<Rightarrow> string" where
  "isoYear y =
     (if 0 \<le> y \<and> y \<le> 9999 then padDec 4 y
      else (if y < 0 then CHR ''-'' else CHR ''+'') # padDec 6 \<bar>y\<bar>)"

definition isoDateOfDay :: "int \<Rightarrow> string" where
  "isoDateOfDay dn =
     (case civilFromDays dn of
        (y, m, d) \<Rightarrow> isoYear y @ ''-'' @ padDec 2 m @ ''-'' @ padDec 2 d)"

text \<open>\<^verbatim>\<open>new Date(t).toISOString()\<close> for a valid time value.\<close>

definition toISOString :: "int \<Rightarrow> string" where
  "toISOString t =
     (let ms = t mod msPerDay
      in isoDateOfDay (Day t) @ ''T'' @ padDec 2 (ms div 3600000) @ '':''
         @ padDec 2 (ms div 60000 mod 60) @ '':'' @ padDec 2 (ms div 1000 mod 60)
         @ ''.'' @ padDec 3 (ms mod 1000) @ ''Z'')"

text \<open>\<^verbatim>\<open>s.split('T')[0]\<close>: the text before the first \<open>T\<close>.\<close>

definition splitT0 :: "string \<Rightarrow> string" where
  "splitT0 s = takeWhile (\<lambda>c. c \<noteq> CHR ''T'') s"

text \<open>\<^verbatim>\<open>new Date(t).toISOString().split('T')[0]\<close>: the UTC calendar date of \<open>t\<close>.\<close>

definition toISODate :: "int \<Rightarrow> string" where
  "toISODate t = splitT0 (toISOString t)"

section \<open>The performance ledger\<close>

record Recommendation =
  rec_id :: string
  date :: string
  ticker :: string
  direction :: string
  confidence :: int
  rec_type :: string
  summary :: string
  outcome :: "string option"
  reviewedAt :: "string option"
  reviewNotes :: "string option"

record WeeklyScore =
  weekOf :: string
  totalCalls :: nat
  correct :: nat
  wrong :: nat
  partial :: nat
  accuracy :: int
  bestCall :: string
  worstCall :: string
  lesson :: string

record PerformanceData =
  recommendations :: "Recommendation list"
  weeklyScores :: "WeeklyScore list"
  strategyNotes :: "string list"
  lastNightlyReview :: string
  lastWeeklyReview :: string

text \<open>
  \<^verbatim>\<open>loadPerformance\<close> and \<^verbatim>\<open>savePerformance\<close> read and write the whole document; every
  operation below takes the loaded document and returns the saved one.
\<close>

definition defaultPerformance :: PerformanceData where
  "defaultPerformance =
     \<lparr>recommendations = [], weeklyScores = [], strategyNotes = [],
      lastNightlyReview = [], lastWeeklyReview = []\<rparr>"

text \<open>The id of a new recommendation: date, ticker and the clock in base 36.\<close>

definition makeId :: "string \<Rightarrow> string \<Rightarrow> int \<Rightarrow> string" where
  "makeId d t now = d @ ''-'' @ t @ ''-'' @ toString36 now"

definition recordRecommendation ::
  "int \<Rightarrow> Recommendation \<Rightarrow> PerformanceData \<Rightarrow> PerformanceData" where
  "recordRecommendation now r data =
     (let newId = makeId (date r) (ticker r) now;
          pushed = recommendations data @ [r\<lparr>rec_id := newId\<rparr>]
      in data\<lparr>recommendations :=
                (if length pushed > 200 then sliceLast 200 pushed else pushed)\<rparr>)"

definition isPending :: "Recommendation \<Rightarrow> bool" where
  "isPending r = (outcome r = None \<or> outcome r = Some ''pending'')"

definition getPendingReviews :: "int \<Rightarrow> PerformanceData \<Rightarrow> Recommendation list" where
  "getPendingReviews now data =
     (let oneDayAgo = toISODate (now - 24 * 60 * 60 * 1000)
      in filter (\<lambda>r. str_le (date r) oneDayAgo) (filter isPending (recommendations data)))"

record OutcomeUpdate =
  upd_id :: string
  upd_outcome :: string
  upd_notes :: string

text \<open>\<^verbatim>\<open>recs.find(r => r.id === id)\<close> followed by the three assignments: the first entry
  with the id is overwritten, and nothing changes when there is none.\<close>

fun setOutcome :: "string \<Rightarrow> OutcomeUpdate \<Rightarrow> Recommendation list \<Rightarrow> Recommendation list" where
  "setOutcome stamp u [] = []"
| "setOutcome stamp u (r # rs) =
     (if rec_id r = upd_id u
      then r\<lparr>outcome := Some (upd_outcome u), reviewedAt := Some stamp,
              reviewNotes := Some (upd_notes u)\<rparr> # rs
      else r # setOutcome stamp u rs)"

definition updateOutcome ::
  "int \<Rightarrow> string \<Rightarrow> string \<Rightarrow> string \<Rightarrow> PerformanceData \<Rightarrow> PerformanceData" where
  "updateOutcome now i oc notes data =
     data\<lparr>recommendations :=
            setOutcome (toISOString now) \<lparr>upd_id = i, upd_outcome = oc, upd_notes = notes\<rparr>
              (recommendations data)\<rparr>"

text \<open>The loop of \<^verbatim>\<open>batchUpdateOutcomes\<close>; each update comes with the reading of the clock
  at its turn.\<close>

fun batchLoop :: "(int \<times> OutcomeUpdate) list \<Rightarrow> Recommendation list \<Rightarrow> Recommendation list" where
  "batchLoop [] rs = rs"
| "batchLoop ((t, u) # us) rs = batchLoop us (setOutcome (toISOString t) u rs)"

definition batchUpdateOutcomes ::
  "(int \<times> OutcomeUpdate) list \<Rightarrow> PerformanceData \<Rightarrow> PerformanceData" where
  "batchUpdateOutcomes updates data =
     data\<lparr>recommendations := batchLoop updates (recommendations data)\<rparr>"

definition recordWeeklyScore :: "WeeklyScore \<Rightarrow> PerformanceData \<Rightarrow> PerformanceData" where
  "recordWeeklyScore score data =
     (let pushed = weeklyScores data @ [score]
      in data\<lparr>weeklyScores := (if length pushed > 52 then sliceLast 52 pushed else pushed)\<rparr>)"

definition addStrategyNote :: "int \<Rightarrow> string \<Rightarrow> PerformanceData \<Rightarrow> PerformanceData" where
  "addStrategyNote now note data =
     (let pushed = strategyNotes data @ [''['' @ toISODate now @ ''] '' @ note]
      in data\<lparr>strategyNotes := (if length pushed > 30 then sliceLast 30 pushed else pushed)\<rparr>)"

definition markNightlyReview :: "int \<Rightarrow> PerformanceData \<Rightarrow> PerformanceData" where
  "markNightlyReview now data = data\<lparr>lastNightlyReview := toISODate now\<rparr>"

definition markWeeklyReview :: "int \<Rightarrow> PerformanceData \<Rightarrow> PerformanceData" where
  "markWeeklyReview now data = data\<lparr>lastWeeklyReview := toISODate now\<rparr>"

section \<open>The scheduler's clock\<close>

text \<open>
  \<^verbatim>\<open>getTodayET\<close> prints the clock as wall time in America/New_York, reads that text back
  as a local time and takes the date of its ISO form. The process runs in UTC (the
  source says so), so the text is read back as UTC. The offset of America/New_York from
  UTC at \<open>now\<close>, in milliseconds (-18000000 in winter, -14400000 in summer), comes from
  the time zone database and is the parameter \<open>off\<close>; the printed text has no
  milliseconds.
\<close>

definition getTodayET :: "int \<Rightarrow> int \<Rightarrow> string" where
  "getTodayET off now = toISODate ((now + off) div 1000 * 1000)"

section \<open>Regular expressions\<close>

text \<open>
  The patterns of the repository are sequences of three kinds of items: a literal, a
  greedy repetition of one character class (\<^verbatim>\<open>\s*\<close>, \<^verbatim>\<open>[^\n]+\<close>, \<^verbatim>\<open>\[?\<close>,
  \<^verbatim>\<open>.{10,200}\<close>, \<^verbatim>\<open>\d{4}\<close>), and an alternation of literals. An item may be a
  capturing group. Every pattern with a letter in it carries the \<^verbatim>\<open>i\<close> flag, so
  literals are compared after canonicalisation; the literals are ASCII, and a code unit
  above 127 never canonicalises to an ASCII one, so upper-casing the ASCII letters is all
  the comparison needs.
\<close>

datatype atom =
    Lit string
  | Rep "char \<Rightarrow> bool" nat "nat option"
  | Alt "string list"

type_synonym regex = "(bool \<times> atom) list"

definition canon :: "char \<Rightarrow> char" where
  "canon c =
     (let n = (of_char c :: int) in if 97 \<le> n \<and> n \<le> 122 then char_of (n - 32) else c)"

definition ciPrefix :: "string \<Rightarrow> string \<Rightarrow> bool" where
  "ciPrefix l s = (length l \<le> length s \<and> map canon (take (length l) s) = map canon l)"

text \<open>The longest run a repetition can take at the head of \<open>s\<close>.\<close>

definition repMax :: "(char \<Rightarrow> bool) \<Rightarrow> nat option \<Rightarrow> string \<Rightarrow> nat" where
  "repMax P hi s =
     (let n = length (takeWhile P s) in case hi of None \<Rightarrow> n | Some h \<Rightarrow> min n h)"

definition withCap ::
  "bool \<Rightarrow> string \<Rightarrow> (string list \<times> string) option \<Rightarrow> (string list \<times> string) option" where
  "withCap c m r =
     (case r of None \<Rightarrow> None
      | Some (caps, rest) \<Rightarrow> Some (if c then m # caps else caps, rest))"

text \<open>
  Matching at the head of \<open>s\<close>, with backtracking in the order of the engine: a
  repetition tries its longest run first and gives back one character at a time
  (\<open>mtchRep\<close>, from the run length \<open>k\<close> down to \<open>lo\<close>), an alternation tries its
  literals from the left (\<open>mtchAlt\<close>). The result is the captured texts in the order of
  their groups, and the text left after the match.
\<close>

function mtch :: "regex \<Rightarrow> string \<Rightarrow> (string list \<times> string) option"
  and mtchRep :: "bool \<Rightarrow> regex \<Rightarrow> string \<Rightarrow> nat \<Rightarrow> nat \<Rightarrow> (string list \<times> string) option"
  and mtchAlt :: "bool \<Rightarrow> regex \<Rightarrow> string \<Rightarrow> string list \<Rightarrow> (string list \<times> string) option"
where
  "mtch [] s = Some ([], s)"
| "mtch ((c, Lit l) # r) s =
     (if ciPrefix l s then withCap c (take (length l) s) (mtch r (drop (length l) s))
      else None)"
| "mtch ((c, Alt ls) # r) s = mtchAlt c r s ls"
| "mtch ((c, Rep P lo hi) # r) s =
     (if lo \<le> repMax P hi s then mtchRep c r s lo (repMax P hi s) else None)"
| "mtchRep c r s lo k =
     (case withCap c (take k s) (mtch r (drop k s)) of
        Some m \<Rightarrow> Some m
      | None \<Rightarrow> (if lo < k then mtchRep c r s lo (k - 1) else None))"
| "mtchAlt c r s [] = None"
| "mtchAlt c r s (l # ls) =
     (case (if ciPrefix l s then withCap c (take (length l) s) (mtch r (drop (length l) s))
            else None) of
        Some m \<Rightarrow> Some m
      | None \<Rightarrow> mtchAlt c r s ls)"
  by pat_completeness auto
termination
  by (relation "inv_image (less_than <*lex*> less_than)
        (\<lambda>x. case x of
           Inl (re, s) \<Rightarrow> (length re, 0)
         | Inr (Inl (c, r, s, lo, k)) \<Rightarrow> (length r, Suc k)
         | Inr (Inr (c, r, s, ls)) \<Rightarrow> (length r, Suc (length ls)))") auto

declare mtchRep.simps [simp del]

text \<open>\<^verbatim>\<open>s.match(re)\<close> without the \<^verbatim>\<open>g\<close> flag: the leftmost match, as the array of the
  matched text followed by the captures; \<open>None\<close> for \<^verbatim>\<open>null\<close>.\<close>

fun search :: "regex \<Rightarrow> string \<Rightarrow> string list option" where
  "search re [] =
     (case mtch re [] of None \<Rightarrow> None | Some (caps, rest) \<Rightarrow> Some ([] # caps))"
| "search re (x # xs) =
     (case mtch re (x # xs) of
        None \<Rightarrow> search re xs
      | Some (caps, rest) \<Rightarrow>
          Some (take (length (x # xs) - length rest) (x # xs) # caps))"

text \<open>\<^verbatim>\<open>s.match(re) || []\<close> with the \<^verbatim>\<open>g\<close> flag: the matched texts from left to right,
  each search starting where the match before ended (one further after an empty match).\<close>

function matchAll :: "regex \<Rightarrow> string \<Rightarrow> string list" where
  "matchAll re s =
     (case mtch re s of
        None \<Rightarrow> (case s of [] \<Rightarrow> [] | x # xs \<Rightarrow> matchAll re xs)
      | Some (caps, rest) \<Rightarrow>
          (if length rest < length s
           then take (length s - length rest) s # matchAll re rest
           else [] # (case s of [] \<Rightarrow> [] | x # xs \<Rightarrow> matchAll re xs)))"
  by pat_completeness auto
termination
  by (relation "measure (\<lambda>(re, s). length s)") auto

declare matchAll.simps [simp del]

text \<open>The character classes of the patterns.\<close>

definition isDot :: "char \<Rightarrow> bool" where
  "isDot c = (c \<noteq> CHR 0x0A \<and> c \<noteq> CHR 0x0D)"

definition isDigit :: "char \<Rightarrow> bool" where
  "isDigit c = (let n = (of_char c :: int) in 48 \<le> n \<and> n \<le> 57)"

definition ws0 :: "bool \<times> atom" where
  "ws0 = (False, Rep isSpace 0 None)"

text \<open>What the groups of a pattern can capture: the group of a literal or of an
  alternation holds a text equal to the literal, or to one of the literals, up to the
  case of its letters.\<close>

fun capOK :: "atom \<Rightarrow> string \<Rightarrow> bool" where
  "capOK (Lit l) m = (map canon m = map canon l)"
| "capOK (Alt ls) m = list_ex (\<lambda>l. map canon m = map canon l) ls"
| "capOK (Rep P lo hi) m = True"

fun capsOK :: "regex \<Rightarrow> string list \<Rightarrow> bool" where
  "capsOK [] caps = (caps = [])"
| "capsOK ((c, a) # r) caps =
     (if c then (case caps of [] \<Rightarrow> False | m # ms \<Rightarrow> capOK a m \<and> capsOK r ms)
      else capsOK r caps)"

text \<open>Whether a keyword stands somewhere in a text, in any letter case.\<close>

fun containsCI :: "string \<Rightarrow> string \<Rightarrow> bool" where
  "containsCI k [] = ciPrefix k []"
| "containsCI k (x # xs) = (ciPrefix k (x # xs) \<or> containsCI k xs)"

section \<open>The nightly review\<close>

text \<open>\<^verbatim>\<open>/REVIEW:\s*([^\n]+)/gi\<close>\<close>

definition reviewLineRe :: regex where
  "reviewLineRe =
     [(False, Lit ''REVIEW:''), ws0, (True, Rep (\<lambda>c. c \<noteq> CHR 0x0A) 1 None)]"

text \<open>\<^verbatim>\<open>/REVIEW:\s*\[?([^\]|]+)\]?\s*\|\s*(correct|wrong|partial|skip)\s*\|\s*(.+)/i\<close>\<close>

definition reviewFieldsRe :: regex where
  "reviewFieldsRe =
     [(False, Lit ''REVIEW:''), ws0,
      (False, Rep (\<lambda>c. c = CHR ''['') 0 (Some 1)),
      (True, Rep (\<lambda>c. c \<noteq> CHR '']'' \<and> c \<noteq> CHR ''|'') 1 None),
      (False, Rep (\<lambda>c. c = CHR '']'') 0 (Some 1)), ws0,
      (False, Lit ''|''), ws0,
      (True, Alt [''correct'', ''wrong'', ''partial'', ''skip'']), ws0,
      (False, Lit ''|''), ws0,
      (True, Rep isDot 1 None)]"

text \<open>\<^verbatim>\<open>/LESSON:\s*(.+)/i\<close>\<close>

definition lessonRe :: regex where
  "lessonRe = [(False, Lit ''LESSON:''), ws0, (True, Rep isDot 1 None)]"

text \<open>The body of the loop over the review lines: \<open>None\<close> where the source continues
  with the next line. The pattern has three groups, so the match array has four
  elements.\<close>

definition parseLine :: "string \<Rightarrow> OutcomeUpdate option" where
  "parseLine line =
     (case search reviewFieldsRe line of
        Some [whole, i, oc, notes] \<Rightarrow>
          (if toLowerCase oc = ''skip'' then None
           else Some \<lparr>upd_id = trim i, upd_outcome = toLowerCase oc, upd_notes = trim notes\<rparr>)
      | _ \<Rightarrow> None)"

definition parseReview :: "string \<Rightarrow> OutcomeUpdate list" where
  "parseReview response = List.map_filter parseLine (matchAll reviewLineRe response)"

definition parseLesson :: "string \<Rightarrow> string option" where
  "parseLesson response =
     (case search lessonRe response of Some [whole, l] \<Rightarrow> Some (trim l) | _ \<Rightarrow> None)"

text \<open>The lines of a text, as \<^verbatim>\<open>split('\n')\<close> gives them, and the extraction read line
  by line: the tuples of the lines that match the pattern of the fields. This is the
  reading of the specification, to compare with \<open>parseReview\<close>.\<close>

fun splitLF :: "string \<Rightarrow> string \<Rightarrow> string list" where
  "splitLF acc [] = [rev acc]"
| "splitLF acc (c # cs) =
     (if c = CHR 0x0A then rev acc # splitLF [] cs else splitLF (c # acc) cs)"

definition linesOf :: "string \<Rightarrow> string list" where
  "linesOf s = splitLF [] s"

definition parseByLine :: "string \<Rightarrow> OutcomeUpdate list" where
  "parseByLine response = List.map_filter parseLine (linesOf response)"

text \<open>
  The pattern of the fields read from the left, one field at a time and without the
  engine. After the keyword come the id, a bar, the outcome, a bar and the notes; white
  space may stand before each of them.

  The id is what stands before the first \<open>]\<close> or \<open>|\<close>, without the white space in front
  and without an opening bracket when more than the bracket is there; a closing bracket
  after it is passed over. \<open>idField\<close> gives the id and the text after it. An id of
  white space only is given as empty: the pattern keeps one character of it, which the
  trimming removes.
\<close>

definition idChar :: "char \<Rightarrow> bool" where
  "idChar c = (c \<noteq> CHR '']'' \<and> c \<noteq> CHR ''|'')"

definition afterId :: "string \<Rightarrow> string" where
  "afterId y = (if y \<noteq> [] \<and> hd y = CHR '']'' then tl y else y)"

fun dropOpen :: "string \<Rightarrow> string" where
  "dropOpen (c # d # v) = (if c = CHR ''['' then d # v else c # d # v)"
| "dropOpen v = v"

definition idField :: "string \<Rightarrow> (string \<times> string) option" where
  "idField s =
     (let u = takeWhile idChar s
      in if u = [] then None
         else Some (dropOpen (dropWhile isSpace u), afterId (drop (length u) s)))"

text \<open>White space and a bar: the text after the bar.\<close>

definition skipBar :: "string \<Rightarrow> string option" where
  "skipBar s =
     (case dropWhile isSpace s of
        [] \<Rightarrow> None
      | c # t \<Rightarrow> if c = CHR ''|'' then Some t else None)"

text \<open>White space and one of the four words, in any letter case: the word as it stands
  in the text, and the text after it.\<close>

definition outcomeWords :: "string list" where
  "outcomeWords = [''correct'', ''wrong'', ''partial'', ''skip'']"

definition outcomeField :: "string \<Rightarrow> (string \<times> string) option" where
  "outcomeField s =
     (let t = dropWhile isSpace s
      in case List.find (\<lambda>l. ciPrefix l t) outcomeWords of
           None \<Rightarrow> None
         | Some l \<Rightarrow> Some (take (length l) t, drop (length l) t))"

text \<open>White space and the notes, up to the next line terminator. When only white space
  is left, the notes are given as empty, provided some of that white space is not a line
  terminator: the pattern keeps a piece of it, which the trimming removes.\<close>

definition notesField :: "string \<Rightarrow> string option" where
  "notesField s =
     (let n = takeWhile isDot (dropWhile isSpace s)
      in if n = [] \<and> \<not> list_ex isDot s then None else Some n)"

definition fieldsAfter :: "string \<Rightarrow> (string \<times> string \<times> string) option" where
  "fieldsAfter s =
     (case idField s of
        None \<Rightarrow> None
      | Some (i, s1) \<Rightarrow>
          (case skipBar s1 of
             None \<Rightarrow> None
           | Some s2 \<Rightarrow>
               (case outcomeField s2 of
                  None \<Rightarrow> None
                | Some (oc, s3) \<Rightarrow>
                    (case skipBar s3 of
                       None \<Rightarrow> None
                     | Some s4 \<Rightarrow>
                         (case notesField s4 of
                            None \<Rightarrow> None
                          | Some nts \<Rightarrow> Some (i, oc, nts))))))"

text \<open>The tuple of a line: the fields after the first keyword of the line from which
  they can be read, and no tuple when the outcome there is \<open>skip\<close>.\<close>

fun fieldsOfLine :: "string \<Rightarrow> OutcomeUpdate option" where
  "fieldsOfLine [] = None"
| "fieldsOfLine (x # xs) =
     (if ciPrefix ''REVIEW:'' (x # xs)
      then (case fieldsAfter (drop (length ''REVIEW:'') (x # xs)) of
              None \<Rightarrow> fieldsOfLine xs
            | Some (i, oc, nts) \<Rightarrow>
                (if toLowerCase oc = ''skip'' then None
                 else Some \<lparr>upd_id = trim i, upd_outcome = toLowerCase oc,
                             upd_notes = trim nts\<rparr>))
      else fieldsOfLine xs)"

text \<open>The part of a line from its first \<open>REVIEW:\<close> on, in any letter case; \<open>None\<close> for a
  line without the keyword.\<close>

fun fromKeyword :: "string \<Rightarrow> string option" where
  "fromKeyword [] = None"
| "fromKeyword (x # xs) =
     (if ciPrefix ''REVIEW:'' (x # xs) then Some (x # xs) else fromKeyword xs)"

text \<open>The fields of a keyword are on its line: the line has no keyword, or a character
  other than white space follows its first keyword before the line ends. For a text, this
  holds of every line.\<close>

definition fieldsOnLine :: "string \<Rightarrow> bool" where
  "fieldsOnLine l =
     (case fromKeyword l of
        None \<Rightarrow> True
      | Some s \<Rightarrow> list_ex (\<lambda>c. \<not> isSpace c) (drop (length ''REVIEW:'') s))"

definition fieldsOnLines :: "string \<Rightarrow> bool" where
  "fieldsOnLines response = list_all fieldsOnLine (linesOf response)"

text \<open>A line in the form that the specification gives,
  \<^verbatim>\<open>REVIEW: [id] | outcome | notes\<close>.\<close>

definition reviewLine :: "string \<Rightarrow> string \<Rightarrow> string \<Rightarrow> string" where
  "reviewLine i oc nts = ''REVIEW: ['' @ i @ ''] | '' @ oc @ '' | '' @ nts"

text \<open>
  \<^verbatim>\<open>nightlyReview\<close>, as far as the performance document goes. \<open>off\<close> is the offset of
  New York, \<open>t0\<close> the clock when the job starts, \<open>resp\<close> what the collaborator returns
  (\<open>None\<close> when the call fails), \<open>t1\<close> the clock after it has returned, and \<open>postOk\<close>
  tells whether posting the recap and saving the review text went through; a failure
  there is caught like a failed call, after the ledger has been updated.
\<close>

definition nightlyReview ::
  "int \<Rightarrow> int \<Rightarrow> string option \<Rightarrow> int \<Rightarrow> bool \<Rightarrow> PerformanceData \<Rightarrow> PerformanceData" where
  "nightlyReview off t0 resp t1 postOk data =
     (if lastNightlyReview data = getTodayET off t0 then data
      else if getPendingReviews t0 data = [] then markNightlyReview t0 data
      else case resp of
             None \<Rightarrow> data
           | Some response \<Rightarrow>
               (let updates = parseReview response;
                    d1 = (if length updates > 0
                          then batchUpdateOutcomes (map (Pair t1) updates) data else data);
                    d2 = (case parseLesson response of
                            Some l \<Rightarrow> addStrategyNote t1 l d1
                          | None \<Rightarrow> d1)
                in if postOk then markNightlyReview t1 d2 else d2))"

section \<open>Double-precision arithmetic\<close>

text \<open>
  A JavaScript number is an IEEE 754 double. The accuracy of the weekly review is the
  only place where the repository's arithmetic is not exact, so the model has what that
  expression needs: positive doubles in the normal range, as a pair \<open>(m, e)\<close> that
  stands for \<open>m * 2 ^ e\<close>, and the rounding of an exact quotient to the nearest double,
  ties to the even significand.
\<close>

function bitLen :: "int \<Rightarrow> int" where
  "bitLen n = (if n \<le> 0 then 0 else 1 + bitLen (n div 2))"
  by pat_completeness auto
termination
  by (relation "measure nat") auto

declare bitLen.simps [simp del]

text \<open>The fraction \<open>num / den / 2 ^ e\<close>.\<close>

definition scaled :: "int \<Rightarrow> int \<Rightarrow> int \<Rightarrow> int \<times> int" where
  "scaled num den e =
     (if 0 \<le> e then (num, den * 2 ^ nat e) else (num * 2 ^ nat (- e), den))"

definition roundHalfEven :: "int \<Rightarrow> int \<Rightarrow> int" where
  "roundHalfEven n d =
     (let q = n div d; r = n mod d
      in if 2 * r < d then q else if d < 2 * r then q + 1
         else if even q then q else q + 1)"

text \<open>The double nearest to \<open>num / den\<close>, for \<open>0 \<le> num\<close> and \<open>0 < den\<close>: the exponent
  \<open>e\<close> puts the quotient between \<open>2 ^ 52\<close> and \<open>2 ^ 53\<close>, where doubles are the
  integers.\<close>

definition roundDouble :: "int \<Rightarrow> int \<Rightarrow> int \<times> int" where
  "roundDouble num den =
     (if num = 0 then (0, 0)
      else let k0 = bitLen num - bitLen den;
               k = (case scaled num den k0 of (n, d) \<Rightarrow> if d \<le> n then k0 else k0 - 1);
               e = k - 52
           in case scaled num den e of (n, d) \<Rightarrow> (roundHalfEven n d, e))"

text \<open>A double as an exact fraction.\<close>

definition fracOf :: "int \<times> int \<Rightarrow> int \<times> int" where
  "fracOf x = (case x of (m, e) \<Rightarrow> scaled m 1 (- e))"

text \<open>\<^verbatim>\<open>x * c\<close> for a double \<open>x\<close> and an integer \<open>c\<close>.\<close>

definition dmul :: "int \<times> int \<Rightarrow> int \<Rightarrow> int \<times> int" where
  "dmul x c = (case fracOf x of (n, d) \<Rightarrow> roundDouble (n * c) d)"

text \<open>\<^verbatim>\<open>Math.round(x)\<close>: the integer nearest to \<open>x\<close>, a half going up.\<close>

definition mathRound :: "int \<times> int \<Rightarrow> int" where
  "mathRound x = (case fracOf x of (n, d) \<Rightarrow> (2 * n + d) div (2 * d))"

text \<open>\<^verbatim>\<open>Math.round((correct + partial * 0.5) / total * 100)\<close>: the sum \<open>correct + partial * 0.5\<close>
  is the exact half-integer \<open>(2 * correct + partial) / 2\<close>, the division and the
  multiplication each round to a double.\<close>

definition weeklyAccuracy :: "nat \<Rightarrow> nat \<Rightarrow> nat \<Rightarrow> int" where
  "weeklyAccuracy c p calls =
     mathRound (dmul (roundDouble (2 * int c + int p) (2 * int calls)) 100)"

text \<open>The same expression in exact arithmetic, a half going up: what
  \<open>round((correct + 0.5 * partial) / total * 100)\<close> says on the reals.\<close>

definition exactAccuracy :: "nat \<Rightarrow> nat \<Rightarrow> nat \<Rightarrow> int" where
  "exactAccuracy c p calls =
     ((2 * int c + int p) * 100 + int calls) div (2 * int calls)"

section \<open>The weekly review\<close>

definition colonOrSpace :: "char \<Rightarrow> bool" where
  "colonOrSpace c = (c = CHR '':'' \<or> isSpace c)"

text \<open>\<^verbatim>\<open>/best\s*call[:\s]*(.{10,200})/i\<close>, \<^verbatim>\<open>/worst\s*call[:\s]*(.{10,200})/i\<close> and
  \<^verbatim>\<open>/lesson[:\s]*(.{10,200})/i\<close>\<close>

definition bestCallRe :: regex where
  "bestCallRe =
     [(False, Lit ''best''), ws0, (False, Lit ''call''), (False, Rep colonOrSpace 0 None),
      (True, Rep isDot 10 (Some 200))]"

definition worstCallRe :: regex where
  "worstCallRe =
     [(False, Lit ''worst''), ws0, (False, Lit ''call''), (False, Rep colonOrSpace 0 None),
      (True, Rep isDot 10 (Some 200))]"

definition weekLessonRe :: regex where
  "weekLessonRe =
     [(False, Lit ''lesson''), (False, Rep colonOrSpace 0 None),
      (True, Rep isDot 10 (Some 200))]"

text \<open>\<^verbatim>\<open>m ? m[1].trim().slice(0, 200) : fallback\<close>\<close>

definition captureOr :: "regex \<Rightarrow> string \<Rightarrow> string \<Rightarrow> string" where
  "captureOr re response fallback =
     (case search re response of
        Some [whole, m] \<Rightarrow> sliceFirst 200 (trim m)
      | _ \<Rightarrow> fallback)"

text \<open>\<^verbatim>\<open>r.outcome && r.outcome !== 'pending'\<close>: a defined, non-empty outcome other than
  \<open>pending\<close>.\<close>

definition isReviewed :: "Recommendation \<Rightarrow> bool" where
  "isReviewed r =
     (case outcome r of None \<Rightarrow> False | Some oc \<Rightarrow> oc \<noteq> [] \<and> oc \<noteq> ''pending'')"

definition oneWeekAgo :: "int \<Rightarrow> string" where
  "oneWeekAgo now = toISODate (now - 7 * 24 * 60 * 60 * 1000)"

definition thisWeek :: "int \<Rightarrow> PerformanceData \<Rightarrow> Recommendation list" where
  "thisWeek now data =
     filter (\<lambda>r. str_ge (date r) (oneWeekAgo now) \<and> isReviewed r) (recommendations data)"

definition countOutcome :: "string \<Rightarrow> Recommendation list \<Rightarrow> nat" where
  "countOutcome oc rs = length (filter (\<lambda>r. outcome r = Some oc) rs)"

definition weeklyScoreOf :: "int \<Rightarrow> string \<Rightarrow> Recommendation list \<Rightarrow> WeeklyScore" where
  "weeklyScoreOf now response week =
     \<lparr>weekOf = oneWeekAgo now,
      totalCalls = length week,
      correct = countOutcome ''correct'' week,
      wrong = countOutcome ''wrong'' week,
      partial = countOutcome ''partial'' week,
      accuracy = weeklyAccuracy (countOutcome ''correct'' week) (countOutcome ''partial'' week)
                   (length week),
      bestCall = captureOr bestCallRe response ''N/A'',
      worstCall = captureOr worstCallRe response ''N/A'',
      lesson = captureOr weekLessonRe response ''Keep refining analysis approach''\<rparr>"

text \<open>
  \<^verbatim>\<open>weeklyReview\<close>, as far as the performance document goes. \<open>resp\<close> is what the
  collaborator returns (\<open>None\<close> when the call fails), \<open>t1\<close> the clock after it has
  returned, and \<open>restOk\<close> tells whether the steps after \<^verbatim>\<open>recordWeeklyScore\<close> (the post,
  the brain file, the export, the maintenance) went through; a failure of either kind is
  caught and logged.
\<close>

definition weeklyReview ::
  "int \<Rightarrow> int \<Rightarrow> string option \<Rightarrow> int \<Rightarrow> bool \<Rightarrow> PerformanceData \<Rightarrow> PerformanceData" where
  "weeklyReview off t0 resp t1 restOk data =
     (if lastWeeklyReview data = getTodayET off t0 then data
      else if length (thisWeek t0 data) < 2 then markWeeklyReview t0 data
      else case resp of
             None \<Rightarrow> data
           | Some response \<Rightarrow>
               (let d1 = recordWeeklyScore (weeklyScoreOf t0 response (thisWeek t0 data)) data
                in if restOk then markWeeklyReview t1 d1 else d1))"

section \<open>The brain directory\<close>

text \<open>
  The directory is the list of its files in the order \<^verbatim>\<open>readdirSync\<close> gives them; the
  names of a directory are distinct. A file has its text and its modification time in
  milliseconds; \<open>readable\<close> and \<open>removable\<close> say whether \<^verbatim>\<open>readFileSync\<close> and
  \<^verbatim>\<open>unlinkSync\<close> succeed on it (where they throw, the source catches and goes on).
\<close>

record BrainFile =
  name :: string
  content :: string
  mtime :: int
  readable :: bool
  removable :: bool

type_synonym brain = "BrainFile list"

datatype error = RangeError

definition getBrainFiles :: "brain \<Rightarrow> BrainFile list" where
  "getBrainFiles fs = sort_key mtime (filter (\<lambda>f. endsWith (name f) ''.md'') fs)"

definition existsSync :: "brain \<Rightarrow> string \<Rightarrow> bool" where
  "existsSync fs nm = list_ex (\<lambda>f. name f = nm) fs"

text \<open>\<^verbatim>\<open>writeFileSync\<close>: a new file goes to the end of the listing, an existing one gets
  the text and the time.\<close>

definition writeFileSync :: "int \<Rightarrow> string \<Rightarrow> string \<Rightarrow> brain \<Rightarrow> brain" where
  "writeFileSync now nm txt fs =
     (if existsSync fs nm
      then map (\<lambda>f. if name f = nm then f\<lparr>content := txt, mtime := now\<rparr> else f) fs
      else fs @ [\<lparr>name = nm, content = txt, mtime = now, readable = True, removable = True\<rparr>])"

text \<open>\<^verbatim>\<open>try { unlinkSync(..); deleted++ } catch {}\<close>: the file goes and the count rises
  when the file is there and can be removed.\<close>

definition unlinkCounted :: "string \<Rightarrow> brain \<times> nat \<Rightarrow> brain \<times> nat" where
  "unlinkCounted nm st =
     (case st of (fs, deleted) \<Rightarrow>
        if list_ex (\<lambda>f. name f = nm \<and> removable f) fs
        then (filter (\<lambda>f. name f \<noteq> nm) fs, Suc deleted)
        else (fs, deleted))"

text \<open>\<^verbatim>\<open>/(\d{4}-\d{2}-\d{2})/\<close>: the group is the whole pattern, so the captured text is
  the matched text.\<close>

definition dateRe :: regex where
  "dateRe =
     [(False, Rep isDigit 4 (Some 4)), (False, Lit ''-''), (False, Rep isDigit 2 (Some 2)),
      (False, Lit ''-''), (False, Rep isDigit 2 (Some 2))]"

definition digitsVal :: "string \<Rightarrow> int" where
  "digitsVal s = foldl (\<lambda>a c. 10 * a + (of_char c - 48)) 0 s"

text \<open>
  \<^verbatim>\<open>new Date("YYYY-MM-DD")\<close>, as the day number of midnight UTC: the engine takes a month
  from 1 to 12 and a day from 1 to 31 (a day past the end of the month runs into the
  next one) and gives an invalid date otherwise, here \<open>None\<close>.
\<close>

definition parseDate :: "string \<Rightarrow> int option" where
  "parseDate s =
     (let y = digitsVal (take 4 s); m = digitsVal (take 2 (drop 5 s));
          d = digitsVal (take 2 (drop 8 s))
      in if 1 \<le> m \<and> m \<le> 12 \<and> 1 \<le> d \<and> d \<le> 31 then Some (daysFromCivil y m d) else None)"

text \<open>
  The week key of a date text: \<^verbatim>\<open>setDate(getDate() - getDay() + 1)\<close> moves the date by
  whole days (the process runs in UTC), and \<^verbatim>\<open>toISOString\<close> throws a RangeError on an
  invalid date.
\<close>

definition weekKeyOf :: "string \<Rightarrow> error + string" where
  "weekKeyOf s =
     (case parseDate s of
        None \<Rightarrow> Inl RangeError
      | Some dn \<Rightarrow> Inr (toISODate ((dn - weekDay dn + 1) * msPerDay)))"

text \<open>The Monday on or before a day number: what the specification calls the week
  key.\<close>

definition mondayOnOrBefore :: "int \<Rightarrow> int" where
  "mondayOnOrBefore dn = dn - (dn + 3) mod 7"

definition isDaily :: "string \<Rightarrow> bool" where
  "isDaily nm = list_ex (\<lambda>p. startsWith nm p) [''morning-brief-'', ''eod-recap-'', ''scan-'']"

text \<open>\<^verbatim>\<open>weeklyGroups\<close>: the keys in the order of their first use, each with its entries
  (name and text).\<close>

type_synonym groups = "(string \<times> (string \<times> string) list) list"

definition addGroup :: "string \<Rightarrow> groups \<Rightarrow> groups" where
  "addGroup key g = (if list_ex (\<lambda>p. fst p = key) g then g else g @ [(key, [])])"

definition pushEntry :: "string \<Rightarrow> string \<times> string \<Rightarrow> groups \<Rightarrow> groups" where
  "pushEntry key e g = map (\<lambda>p. if fst p = key then (fst p, snd p @ [e]) else p) g"

text \<open>The first loop of \<^verbatim>\<open>consolidateOldFiles\<close>; \<open>cutoff\<close> is \<^verbatim>\<open>oneWeekAgo\<close>.\<close>

fun collect :: "int \<Rightarrow> BrainFile list \<Rightarrow> groups \<Rightarrow> error + groups" where
  "collect cutoff [] g = Inr g"
| "collect cutoff (f # fs) g =
     (if cutoff \<le> mtime f then collect cutoff fs g
      else if \<not> isDaily (name f) then collect cutoff fs g
      else case search dateRe (name f) of
             None \<Rightarrow> collect cutoff fs g
           | Some [] \<Rightarrow> collect cutoff fs g
           | Some (ds # caps) \<Rightarrow>
               (case weekKeyOf ds of
                  Inl e \<Rightarrow> Inl e
                | Inr key \<Rightarrow>
                    collect cutoff fs
                      (if readable f
                       then pushEntry key (name f, content f) (addGroup key g)
                       else addGroup key g)))"

fun joinWith :: "string \<Rightarrow> string list \<Rightarrow> string" where
  "joinWith sep [] = []"
| "joinWith sep [x] = x"
| "joinWith sep (x # y # zs) = x @ sep @ joinWith sep (y # zs)"

text \<open>The length of a list in decimal, as a template literal prints it.\<close>

function showNat :: "int \<Rightarrow> string" where
  "showNat n = (if n < 10 then [digitChar n] else showNat (n div 10) @ [digitChar (n mod 10)])"
  by pat_completeness auto
termination
  by (relation "measure nat") auto

declare showNat.simps [simp del]

text \<open>The dash of the two headers is U+2014, outside the code units modelled; it
  stands here as its three UTF-8 bytes. No property below reads the summary text.\<close>

definition emDash :: string where
  "emDash = [CHR 0xE2, CHR 0x80, CHR 0x94]"

definition summaryText :: "string \<Rightarrow> (string \<times> string) list \<Rightarrow> string" where
  "summaryText key entries =
     joinWith [CHR 0x0A, CHR 0x0A]
       ([''# Weekly Summary '' @ emDash @ '' Week of '' @ key,
         ''*Consolidated from '' @ showNat (int (length entries)) @ '' daily files*''
           @ [CHR 0x0A]]
        @ map (\<lambda>e. ''---'' @ [CHR 0x0A] @ ''### '' @ fst e @ [CHR 0x0A]
                    @ sliceFirst 500 (snd e)) entries)"

definition summaryName :: "string \<Rightarrow> string" where
  "summaryName key = ''weekly-summary-'' @ key @ ''.md''"

text \<open>The second loop; the state is the directory with the two counters
  \<open>consolidated\<close> and \<open>deleted\<close>.\<close>

fun writeSummaries :: "int \<Rightarrow> groups \<Rightarrow> brain \<times> nat \<times> nat \<Rightarrow> brain \<times> nat \<times> nat" where
  "writeSummaries now [] st = st"
| "writeSummaries now ((key, entries) # gs) (fs, consolidated, deleted) =
     (if length entries < 2 then writeSummaries now gs (fs, consolidated, deleted)
      else if existsSync fs (summaryName key)
           then writeSummaries now gs (fs, consolidated, deleted)
      else case fold unlinkCounted (map fst entries)
                  (writeFileSync now (summaryName key) (summaryText key entries) fs, deleted) of
             (fs', deleted') \<Rightarrow> writeSummaries now gs (fs', Suc consolidated, deleted'))"

definition consolidateOldFiles :: "int \<Rightarrow> brain \<Rightarrow> error + brain \<times> nat \<times> nat" where
  "consolidateOldFiles now fs =
     (case collect (now - 7 * 24 * 60 * 60 * 1000) (getBrainFiles fs) [] of
        Inl e \<Rightarrow> Inl e
      | Inr g \<Rightarrow> Inr (writeSummaries now g (fs, 0, 0)))"

text \<open>
  Notions for the statements about the two loops: the key that the first loop gives a
  file (\<open>None\<close> when its name has no date), whether the first loop puts a file into the
  group of a key, the number of entries of a key, and the daily files of a directory.
\<close>

definition fileKey :: "BrainFile \<Rightarrow> (error + string) option" where
  "fileKey f =
     (case search dateRe (name f) of
        None \<Rightarrow> None
      | Some [] \<Rightarrow> None
      | Some (ds # caps) \<Rightarrow> Some (weekKeyOf ds))"

definition eligible :: "int \<Rightarrow> BrainFile \<Rightarrow> bool" where
  "eligible cutoff f = (mtime f < cutoff \<and> isDaily (name f))"

definition inGroup :: "int \<Rightarrow> string \<Rightarrow> BrainFile \<Rightarrow> bool" where
  "inGroup cutoff key f = (eligible cutoff f \<and> fileKey f = Some (Inr key) \<and> readable f)"

definition groupLen :: "string \<Rightarrow> groups \<Rightarrow> nat" where
  "groupLen key g = (case map_of g key of None \<Rightarrow> 0 | Some es \<Rightarrow> length es)"

definition dailyFiles :: "brain \<Rightarrow> BrainFile list" where
  "dailyFiles fs = filter (\<lambda>f. isDaily (name f)) fs"

definition dailyEntries :: "groups \<Rightarrow> bool" where
  "dailyEntries g = list_all (\<lambda>p. list_all (\<lambda>e. isDaily (fst e)) (snd p)) g"

section \<open>Sample data\<close>

text \<open>A call as the morning brief of Tuesday 2024-01-02 records it, at 08:30 in New York
  (13:30 UTC, clock 1704202200000).\<close>

definition morningCall :: Recommendation where
  "morningCall =
     \<lparr>rec_id = [], date = getTodayET (- 18000000) 1704202200000, ticker = ''AAPL'',
      direction = ''bullish'', confidence = 50, rec_type = ''morning-brief'',
      summary = ''morning-brief: futures point up'', outcome = None, reviewedAt = None,
      reviewNotes = None\<rparr>"

text \<open>A ledger of two calls that await review, with the ids \<open>abc-1\<close> and \<open>abc-2\<close>.\<close>

definition twoCalls :: PerformanceData where
  "twoCalls =
     defaultPerformance\<lparr>recommendations :=
       [morningCall\<lparr>rec_id := ''abc-1''\<rparr>,
        morningCall\<lparr>rec_id := ''abc-2'', ticker := ''MSFT'', outcome := Some ''pending''\<rparr>]\<rparr>"

text \<open>The review text of the specification's example, three lines.\<close>

definition sampleReview :: string where
  "sampleReview =
     ''REVIEW: [abc-1] | correct | good call'' @ [CHR 0x0A]
     @ ''REVIEW: [abc-2] | skip | too early'' @ [CHR 0x0A]
     @ ''LESSON: trust the trend''"

text \<open>A review text whose first line ends after the keyword.\<close>

definition brokenReview :: string where
  "brokenReview = ''REVIEW:'' @ [CHR 0x0A] @ ''[abc-1] | correct | good call''"

text \<open>Two daily files of the week of Monday 2024-01-01, written on the days in their
  names (13:30 and 21:30 UTC), and a third, dated Sunday 2024-01-07.\<close>

definition twoDaily :: brain where
  "twoDaily =
     [\<lparr>name = ''morning-brief-2024-01-02.md'', content = ''# Morning Brief'',
       mtime = 1704202200000, readable = True, removable = True\<rparr>,
      \<lparr>name = ''eod-recap-2024-01-03.md'', content = ''# End of Day Recap'',
       mtime = 1704317400000, readable = True, removable = True\<rparr>]"

definition sundayScan :: BrainFile where
  "sundayScan =
     \<lparr>name = ''scan-watchlist-2024-01-07.md'', content = ''# watchlist Scan'',
      mtime = 1704652200000, readable = True, removable = True\<rparr>"

text \<open>The two calls of \<open>twoCalls\<close> after their review, one correct and one wrong, and
  the text of a weekly narrative.\<close>

definition reviewedWeek :: PerformanceData where
  "reviewedWeek =
     defaultPerformance\<lparr>recommendations :=
       [morningCall\<lparr>rec_id := ''abc-1'', outcome := Some ''correct''\<rparr>,
        morningCall\<lparr>rec_id := ''abc-2'', ticker := ''MSFT'', outcome := Some ''wrong''\<rparr>]\<rparr>"

text \<open>The same two calls when only the first has been reviewed.\<close>

definition oneReviewed :: PerformanceData where
  "oneReviewed =
     defaultPerformance\<lparr>recommendations :=
       [morningCall\<lparr>rec_id := ''abc-1'', outcome := Some ''correct''\<rparr>,
        morningCall\<lparr>rec_id := ''abc-2'', ticker := ''MSFT'', outcome := Some ''pending''\<rparr>]\<rparr>"

definition sampleNarrative :: string where
  "sampleNarrative =
     ''Best call: AAPL long into the open. Worst call: MSFT fade. Lesson: wait for volume.''"

text \<open>The directory that the consolidation of \<open>twoDaily\<close> leaves at clock
  1705000000000 (2024-01-11), and a scan file whose name carries month 13.\<close>

definition afterFirstRun :: brain where
  "afterFirstRun =
     (case consolidateOldFiles 1705000000000 twoDaily of
        Inl e \<Rightarrow> []
      | Inr r \<Rightarrow> fst r)"

definition badScan :: BrainFile where
  "badScan =
     \<lparr>name = ''scan-sectors-2024-13-01.md'', content = ''# sectors Scan'',
      mtime = 1704202200000, readable = True, removable = True\<rparr>"

section \<open>Facts about the text built-ins\<close>

lemma digitChar_inj:
  assumes "0 \<le> a" "a < 36" "0 \<le> b" "b < 36" "digitChar a = digitChar b"
  shows "a = b"
proof -
  let ?ds = "''0123456789abcdefghijklmnopqrstuvwxyz''"
  have d: "distinct ?ds" by simp
  have la: "nat a < length ?ds" and lb: "nat b < length ?ds" using assms by simp_all
  from assms(5) have "?ds ! nat a = ?ds ! nat b" by (simp add: digitChar_def)
  with d la lb have "nat a = nat b" by (simp only: nth_eq_iff_index_eq)
  with assms show ?thesis by simp
qed

lemma digitChar_not_dash:
  assumes "0 \<le> a" "a < 36"
  shows "digitChar a \<noteq> CHR ''-''"
proof -
  let ?ds = "''0123456789abcdefghijklmnopqrstuvwxyz''"
  have "nat a < length ?ds" using assms by simp
  then have "?ds ! nat a \<in> set ?ds" by (rule nth_mem)
  moreover have "CHR ''-'' \<notin> set ?ds" by simp
  ultimately show ?thesis unfolding digitChar_def by metis
qed

lemma base36_nonempty: "base36 n \<noteq> []"
  by (subst base36.simps) simp

lemma base36_no_dash: "0 \<le> n \<Longrightarrow> CHR ''-'' \<notin> set (base36 n)"
proof (induction n rule: base36.induct)
  case (1 n)
  show ?case
  proof (cases "n < 36")
    case True
    with "1.prems" show ?thesis
      by (subst base36.simps) (simp add: digitChar_not_dash [symmetric])
  next
    case False
    then have "0 \<le> n div 36" by simp
    with False "1.IH" have "CHR ''-'' \<notin> set (base36 (n div 36))" by simp
    moreover have "digitChar (n mod 36) \<noteq> CHR ''-''"
      by (rule digitChar_not_dash) simp_all
    ultimately show ?thesis using False
      by (subst base36.simps) auto
  qed
qed

lemma base36_inj: "0 \<le> n \<Longrightarrow> 0 \<le> m \<Longrightarrow> base36 n = base36 m \<Longrightarrow> n = m"
proof (induction n arbitrary: m rule: base36.induct)
  case (1 n)
  show ?case
  proof (cases "n < 36")
    case nsmall: True
    show ?thesis
    proof (cases "m < 36")
      case True
      with nsmall "1.prems" show ?thesis
        by (simp add: base36.simps [of n] base36.simps [of m] digitChar_inj)
    next
      case False
      with nsmall "1.prems"(3) base36_nonempty [of "m div 36"] show ?thesis
        by (simp add: base36.simps [of n] base36.simps [of m])
    qed
  next
    case nbig: False
    show ?thesis
    proof (cases "m < 36")
      case True
      with nbig "1.prems"(3) base36_nonempty [of "n div 36"] show ?thesis
        by (simp add: base36.simps [of n] base36.simps [of m])
    next
      case False
      with nbig "1.prems"(3)
      have eq: "base36 (n div 36) = base36 (m div 36)"
        and dg: "digitChar (n mod 36) = digitChar (m mod 36)"
        by (simp_all add: base36.simps [of n] base36.simps [of m])
      have "n div 36 = m div 36"
        using "1.IH" [OF nbig _ _ eq] nbig False by simp
      moreover have "n mod 36 = m mod 36"
        by (rule digitChar_inj [OF _ _ _ _ dg]) simp_all
      ultimately show ?thesis
        by (metis mult_div_mod_eq)
    qed
  qed
qed

lemma suffix_after_last:
  assumes "xs @ c # ys = xs' @ c # ys'" "c \<notin> set ys" "c \<notin> set ys'"
  shows "ys = ys'"
proof -
  have "takeWhile (\<lambda>x. x \<noteq> c) (rev (xs @ c # ys)) = rev ys"
    using assms(2) by (auto simp add: takeWhile_tail takeWhile_eq_all_conv)
  moreover have "takeWhile (\<lambda>x. x \<noteq> c) (rev (xs' @ c # ys')) = rev ys'"
    using assms(3) by (auto simp add: takeWhile_tail takeWhile_eq_all_conv)
  ultimately have "rev ys = rev ys'" using assms(1) by simp
  then show ?thesis by simp
qed

section \<open>The ledger: recording\<close>

lemma makeId_inj_clock:
  assumes "0 \<le> n1" "0 \<le> n2" "makeId d1 t1 n1 = makeId d2 t2 n2"
  shows "n1 = n2"
proof -
  have "(d1 @ ''-'' @ t1) @ CHR ''-'' # base36 n1 = (d2 @ ''-'' @ t2) @ CHR ''-'' # base36 n2"
    using assms by (simp add: makeId_def toString36_def)
  then have "base36 n1 = base36 n2"
    by (rule suffix_after_last) (simp_all add: base36_no_dash assms)
  with assms show ?thesis by (simp add: base36_inj)
qed

lemma last_recordRecommendation:
  "last (recommendations (recordRecommendation now r data)) =
     r\<lparr>rec_id := makeId (date r) (ticker r) now\<rparr>"
  by (simp add: recordRecommendation_def Let_def sliceLast_def)

lemma length_recordRecommendation:
  "length (recommendations (recordRecommendation now r data)) =
     min (length (recommendations data) + 1) 200"
  by (simp add: recordRecommendation_def Let_def sliceLast_def)

lemma kept_recordRecommendation:
  "recommendations (recordRecommendation now r data) =
     drop (length (recommendations data) + 1 - 200)
       (recommendations data @ [r\<lparr>rec_id := makeId (date r) (ticker r) now\<rparr>])"
  by (simp add: recordRecommendation_def Let_def sliceLast_def)

text \<open>
  C2, as amended. After \<^verbatim>\<open>recordRecommendation\<close> the ledger holds
  \<open>min (n + 1) 200\<close> entries, where \<open>n\<close> is its length before: one more when it held fewer
  than 200, and 200 otherwise. What is kept is the end of the old ledger followed by the
  new entry: the entries dropped are the oldest ones, and the new entry is the last.
\<close>

theorem recordRecommendation_cap:
  "length (recommendations (recordRecommendation now r data)) =
     min (length (recommendations data) + 1) 200
   \<and> recommendations (recordRecommendation now r data) =
       drop (length (recommendations data) + 1 - 200)
         (recommendations data @ [r\<lparr>rec_id := makeId (date r) (ticker r) now\<rparr>])
   \<and> last (recommendations (recordRecommendation now r data)) =
       r\<lparr>rec_id := makeId (date r) (ticker r) now\<rparr>"
  by (simp only: length_recordRecommendation kept_recordRecommendation [symmetric]
      last_recordRecommendation)

text \<open>C2 as stated fails on a ledger that is full: with 200 entries before the call, the
  length after it is 200, not 201.\<close>

theorem recordRecommendation_full_ledger:
  "length (recommendations (recordRecommendation 1704202200000 morningCall
       (defaultPerformance\<lparr>recommendations := replicate 200 morningCall\<rparr>)))
   \<noteq> length (replicate 200 morningCall) + 1"
  by (simp add: length_recordRecommendation)

text \<open>
  C5, as amended. The ids given by two calls of \<^verbatim>\<open>recordRecommendation\<close> differ whenever
  the two calls read different (non-negative) values of the millisecond clock, whatever
  their dates and tickers, the same day and ticker included.
\<close>

theorem recordRecommendation_ids_differ:
  assumes "0 \<le> n1" and "0 \<le> n2" and "n1 \<noteq> n2"
  shows "rec_id (last (recommendations (recordRecommendation n1 r1 d1))) \<noteq>
         rec_id (last (recommendations (recordRecommendation n2 r2 d2)))"
  using assms makeId_inj_clock [of n1 n2 "date r1" "ticker r1" "date r2" "ticker r2"]
  by (auto simp add: last_recordRecommendation)

theorem recordRecommendation_ids_differ_witness:
  "(0::int) \<le> 1704202200000 \<and> (0::int) \<le> 1704202200001
   \<and> rec_id (last (recommendations
        (recordRecommendation 1704202200000 morningCall defaultPerformance))) \<noteq>
     rec_id (last (recommendations
        (recordRecommendation 1704202200001 morningCall
          (recordRecommendation 1704202200000 morningCall defaultPerformance))))"
  using recordRecommendation_ids_differ [of 1704202200000 1704202200001 morningCall
      defaultPerformance morningCall
      "recordRecommendation 1704202200000 morningCall defaultPerformance"]
  by simp

text \<open>C5 as stated fails when two calls for the same date and ticker read the same
  millisecond: both entries get the same id.\<close>

theorem recordRecommendation_same_millisecond:
  "\<not> distinct (map rec_id (recommendations
       (recordRecommendation 1704202200000 morningCall
         (recordRecommendation 1704202200000 morningCall defaultPerformance))))"
  by (simp add: recordRecommendation_def defaultPerformance_def Let_def)

section \<open>The ledger: strategy notes\<close>

lemma last_addStrategyNote:
  "strategyNotes (addStrategyNote now note data) \<noteq> []
   \<and> last (strategyNotes (addStrategyNote now note data)) =
       ''['' @ toISODate now @ ''] '' @ note"
  by (simp add: addStrategyNote_def Let_def sliceLast_def)

lemma prefixed_differs: "''['' @ d @ ''] '' @ note \<noteq> note"
proof -
  have "length (''['' @ d @ ''] '' @ note) \<noteq> length note" by simp
  then show ?thesis by metis
qed

text \<open>
  C10. The note that \<^verbatim>\<open>addStrategyNote\<close> stores is the last one of the list, and it is
  the given text behind the UTC date of the clock in brackets and a space; it is never
  the given text itself. So when the nightly review gets a response with a lesson in
  it, the note it stores for the lesson is the lesson behind that prefix.
\<close>

theorem addStrategyNote_prefixed:
  "strategyNotes (addStrategyNote now note data) \<noteq> []
   \<and> last (strategyNotes (addStrategyNote now note data)) =
       ''['' @ toISODate now @ ''] '' @ note
   \<and> last (strategyNotes (addStrategyNote now note data)) \<noteq> note
   \<and> (lastNightlyReview data \<noteq> getTodayET off t0 \<and> getPendingReviews t0 data \<noteq> []
       \<and> parseLesson response = Some l
      \<longrightarrow> last (strategyNotes (nightlyReview off t0 (Some response) t1 postOk data)) =
            ''['' @ toISODate t1 @ ''] '' @ l
          \<and> last (strategyNotes (nightlyReview off t0 (Some response) t1 postOk data)) \<noteq> l)"
proof (intro conjI impI)
  show "strategyNotes (addStrategyNote now note data) \<noteq> []"
    and "last (strategyNotes (addStrategyNote now note data)) =
      ''['' @ toISODate now @ ''] '' @ note"
    using last_addStrategyNote [of now "note" data] by simp_all
  then show "last (strategyNotes (addStrategyNote now note data)) \<noteq> note"
    by (simp only: prefixed_differs not_False_eq_True)
next
  assume h: "lastNightlyReview data \<noteq> getTodayET off t0 \<and> getPendingReviews t0 data \<noteq> []
      \<and> parseLesson response = Some l"
  let ?d1 = "if length (parseReview response) > 0
      then batchUpdateOutcomes (map (Pair t1) (parseReview response)) data else data"
  have "strategyNotes (nightlyReview off t0 (Some response) t1 postOk data) =
      strategyNotes (addStrategyNote t1 l ?d1)"
    using h by (simp add: nightlyReview_def Let_def markNightlyReview_def)
  then show stored: "last (strategyNotes (nightlyReview off t0 (Some response) t1 postOk data)) =
      ''['' @ toISODate t1 @ ''] '' @ l"
    using last_addStrategyNote [of t1 l ?d1] by simp
  show "last (strategyNotes (nightlyReview off t0 (Some response) t1 postOk data)) \<noteq> l"
    unfolding stored by (rule prefixed_differs)
qed

theorem addStrategyNote_prefixed_witness:
  "lastNightlyReview twoCalls \<noteq> getTodayET (- 18000000) 1704330000000
   \<and> getPendingReviews 1704330000000 twoCalls \<noteq> []
   \<and> parseLesson sampleReview = Some ''trust the trend''
   \<and> last (strategyNotes
        (nightlyReview (- 18000000) 1704330000000 (Some sampleReview) 1704330060000 True
           twoCalls)) = ''[2024-01-04] trust the trend''"
proof -
  have h: "lastNightlyReview twoCalls \<noteq> getTodayET (- 18000000) 1704330000000
      \<and> getPendingReviews 1704330000000 twoCalls \<noteq> []
      \<and> parseLesson sampleReview = Some ''trust the trend''"
    by code_simp
  have "last (strategyNotes
        (nightlyReview (- 18000000) 1704330000000 (Some sampleReview) 1704330060000 True
           twoCalls)) = ''['' @ toISODate 1704330060000 @ ''] '' @ ''trust the trend''"
    by (rule addStrategyNote_prefixed [THEN conjunct2, THEN conjunct2, THEN conjunct2, THEN mp,
          OF h, THEN conjunct1])
  moreover have "''['' @ toISODate 1704330060000 @ ''] '' @ ''trust the trend'' =
      ''[2024-01-04] trust the trend''"
    by code_simp
  ultimately have "last (strategyNotes
        (nightlyReview (- 18000000) 1704330000000 (Some sampleReview) 1704330060000 True
           twoCalls)) = ''[2024-01-04] trust the trend''"
    by simp
  with h show ?thesis by simp
qed

section \<open>The ledger: outcomes\<close>

lemma setOutcome_ids: "map rec_id (setOutcome s u rs) = map rec_id rs"
  by (induction rs) simp_all

lemma setOutcome_length: "length (setOutcome s u rs) = length rs"
  by (induction rs) simp_all

lemma setOutcome_absent:
  "upd_id u \<notin> rec_id ` set rs \<Longrightarrow> setOutcome s u rs = rs"
  by (induction rs) auto

lemma setOutcome_other:
  "i < length rs \<Longrightarrow> rec_id (rs ! i) \<noteq> upd_id u \<Longrightarrow> setOutcome s u rs ! i = rs ! i"
proof (induction rs arbitrary: i)
  case Nil
  then show ?case by simp
next
  case (Cons r rs)
  then show ?case by (cases i) auto
qed

lemma setOutcome_first:
  "k < length rs \<Longrightarrow> rec_id (rs ! k) = upd_id u \<Longrightarrow>
   (\<And>j. j < k \<Longrightarrow> rec_id (rs ! j) \<noteq> upd_id u) \<Longrightarrow>
   setOutcome s u rs ! k =
     (rs ! k)\<lparr>outcome := Some (upd_outcome u), reviewedAt := Some s,
                reviewNotes := Some (upd_notes u)\<rparr>"
proof (induction rs arbitrary: k)
  case Nil
  then show ?case by simp
next
  case (Cons r rs)
  show ?case
  proof (cases k)
    case 0
    with Cons.prems show ?thesis by simp
  next
    case (Suc k')
    from Cons.prems(3) [of 0] Suc have ne: "rec_id r \<noteq> upd_id u" by simp
    have "setOutcome s u rs ! k' =
        (rs ! k')\<lparr>outcome := Some (upd_outcome u), reviewedAt := Some s,
                   reviewNotes := Some (upd_notes u)\<rparr>"
    proof (rule Cons.IH)
      show "k' < length rs" using Cons.prems(1) Suc by simp
      show "rec_id (rs ! k') = upd_id u" using Cons.prems(2) Suc by simp
      fix j assume "j < k'"
      then show "rec_id (rs ! j) \<noteq> upd_id u"
        using Cons.prems(3) [of "Suc j"] Suc by simp
    qed
    with ne Suc show ?thesis by simp
  qed
qed

lemma setOutcome_core:
  "i < length rs \<Longrightarrow>
   (setOutcome s u rs ! i)\<lparr>outcome := a, reviewedAt := b, reviewNotes := c\<rparr> =
   (rs ! i)\<lparr>outcome := a, reviewedAt := b, reviewNotes := c\<rparr>"
proof (induction rs arbitrary: i)
  case Nil
  then show ?case by simp
next
  case (Cons r rs)
  then show ?case by (cases i) auto
qed

lemma batchLoop_ids: "map rec_id (batchLoop us rs) = map rec_id rs"
  by (induction us rs rule: batchLoop.induct) (simp_all add: setOutcome_ids)

lemma batchLoop_length: "length (batchLoop us rs) = length rs"
  using batchLoop_ids [of us rs] by (metis length_map)

lemma batchLoop_append: "batchLoop (us @ vs) rs = batchLoop vs (batchLoop us rs)"
  by (induction us rs rule: batchLoop.induct) simp_all

lemma batchLoop_absent:
  "list_all (\<lambda>p. upd_id (snd p) \<notin> rec_id ` set rs) us \<Longrightarrow> batchLoop us rs = rs"
  by (induction us rs rule: batchLoop.induct) (simp_all add: setOutcome_absent)

lemma batchLoop_other:
  "i < length rs \<Longrightarrow> list_all (\<lambda>p. rec_id (rs ! i) \<noteq> upd_id (snd p)) us \<Longrightarrow>
   batchLoop us rs ! i = rs ! i"
proof (induction us rs rule: batchLoop.induct)
  case (1 rs)
  then show ?case by simp
next
  case (2 t u us rs)
  have same: "setOutcome (toISOString t) u rs ! i = rs ! i"
    using 2 by (simp add: setOutcome_other)
  have "batchLoop us (setOutcome (toISOString t) u rs) ! i = setOutcome (toISOString t) u rs ! i"
    using 2 same by (simp add: setOutcome_length)
  with same show ?case by simp
qed

lemma batchLoop_core:
  "i < length rs \<Longrightarrow>
   (batchLoop us rs ! i)\<lparr>outcome := a, reviewedAt := b, reviewNotes := c\<rparr> =
   (rs ! i)\<lparr>outcome := a, reviewedAt := b, reviewNotes := c\<rparr>"
proof (induction us rs rule: batchLoop.induct)
  case (1 rs)
  then show ?case by simp
next
  case (2 t u us rs)
  then show ?case by (simp add: setOutcome_length setOutcome_core)
qed

lemma batchLoop_last_update:
  assumes k: "k < length rs"
    and hit: "rec_id (rs ! k) = upd_id u"
    and first: "\<And>j. j < k \<Longrightarrow> rec_id (rs ! j) \<noteq> upd_id u"
    and later: "list_all (\<lambda>p. upd_id u \<noteq> upd_id (snd p)) us2"
  shows "batchLoop (us1 @ (t, u) # us2) rs ! k =
     (rs ! k)\<lparr>outcome := Some (upd_outcome u), reviewedAt := Some (toISOString t),
                reviewNotes := Some (upd_notes u)\<rparr>"
proof -
  let ?rs1 = "batchLoop us1 rs"
  let ?rs2 = "setOutcome (toISOString t) u ?rs1"
  have ids1: "map rec_id ?rs1 = map rec_id rs" by (rule batchLoop_ids)
  have len1: "length ?rs1 = length rs" by (rule batchLoop_length)
  have id1: "rec_id (?rs1 ! j) = rec_id (rs ! j)" if "j < length rs" for j
    using that ids1 len1 by (metis nth_map)
  have k1: "k < length ?rs1" using k len1 by simp
  have hit1: "rec_id (?rs1 ! k) = upd_id u" using id1 [OF k] hit by simp
  have first1: "rec_id (?rs1 ! j) \<noteq> upd_id u" if "j < k" for j
    using that first [OF that] id1 [of j] k by simp
  have step: "?rs2 ! k =
      (?rs1 ! k)\<lparr>outcome := Some (upd_outcome u), reviewedAt := Some (toISOString t),
                   reviewNotes := Some (upd_notes u)\<rparr>"
    using k1 hit1 first1 by (rule setOutcome_first)
  have core: "(?rs1 ! k)\<lparr>outcome := Some (upd_outcome u), reviewedAt := Some (toISOString t),
                   reviewNotes := Some (upd_notes u)\<rparr> =
      (rs ! k)\<lparr>outcome := Some (upd_outcome u), reviewedAt := Some (toISOString t),
                   reviewNotes := Some (upd_notes u)\<rparr>"
    using k by (rule batchLoop_core)
  have k2: "k < length ?rs2" using k1 by (simp add: setOutcome_length)
  have id2: "rec_id (?rs2 ! k) = upd_id u" using step hit1 by simp
  have "batchLoop us2 ?rs2 ! k = ?rs2 ! k"
    using k2 later id2 by (simp add: batchLoop_other)
  then show ?thesis using step core by (simp add: batchLoop_append)
qed

text \<open>
  C9. \<^verbatim>\<open>batchUpdateOutcomes\<close> is a total function: no update makes it fail. When no
  update carries an id of the ledger, the document it saves is the one it loaded. In
  general the entries keep their ids and their order; an entry whose id no update
  carries is unchanged; and for an update that is the last one of the list for its id,
  the first entry with that id ends with the update's outcome and notes and with
  \<open>reviewedAt\<close> set to the clock read at that update, its other fields unchanged.
\<close>

theorem batchUpdateOutcomes_by_id:
  "(list_all (\<lambda>p. upd_id (snd p) \<notin> rec_id ` set (recommendations data)) ups
      \<longrightarrow> batchUpdateOutcomes ups data = data)
   \<and> map rec_id (recommendations (batchUpdateOutcomes ups data)) =
       map rec_id (recommendations data)
   \<and> (\<forall>i. i < length (recommendations data)
          \<and> list_all (\<lambda>p. rec_id (recommendations data ! i) \<noteq> upd_id (snd p)) ups
        \<longrightarrow> recommendations (batchUpdateOutcomes ups data) ! i = recommendations data ! i)
   \<and> (\<forall>k t u us1 us2.
          ups = us1 @ (t, u) # us2 \<and> k < length (recommendations data)
          \<and> rec_id (recommendations data ! k) = upd_id u
          \<and> (\<forall>j<k. rec_id (recommendations data ! j) \<noteq> upd_id u)
          \<and> list_all (\<lambda>p. upd_id u \<noteq> upd_id (snd p)) us2
        \<longrightarrow> recommendations (batchUpdateOutcomes ups data) ! k =
            (recommendations data ! k)
              \<lparr>outcome := Some (upd_outcome u), reviewedAt := Some (toISOString t),
               reviewNotes := Some (upd_notes u)\<rparr>)"
proof (intro conjI allI impI)
  assume "list_all (\<lambda>p. upd_id (snd p) \<notin> rec_id ` set (recommendations data)) ups"
  then have "batchLoop ups (recommendations data) = recommendations data"
    by (rule batchLoop_absent)
  then show "batchUpdateOutcomes ups data = data"
    by (simp add: batchUpdateOutcomes_def)
next
  show "map rec_id (recommendations (batchUpdateOutcomes ups data)) =
      map rec_id (recommendations data)"
    by (simp add: batchUpdateOutcomes_def batchLoop_ids)
next
  fix i
  assume "i < length (recommendations data)
      \<and> list_all (\<lambda>p. rec_id (recommendations data ! i) \<noteq> upd_id (snd p)) ups"
  then show "recommendations (batchUpdateOutcomes ups data) ! i = recommendations data ! i"
    by (simp add: batchUpdateOutcomes_def batchLoop_other)
next
  fix k t u us1 us2
  assume h: "ups = us1 @ (t, u) # us2 \<and> k < length (recommendations data)
      \<and> rec_id (recommendations data ! k) = upd_id u
      \<and> (\<forall>j<k. rec_id (recommendations data ! j) \<noteq> upd_id u)
      \<and> list_all (\<lambda>p. upd_id u \<noteq> upd_id (snd p)) us2"
  have "batchLoop (us1 @ (t, u) # us2) (recommendations data) ! k =
      (recommendations data ! k)
        \<lparr>outcome := Some (upd_outcome u), reviewedAt := Some (toISOString t),
         reviewNotes := Some (upd_notes u)\<rparr>"
    using h by (intro batchLoop_last_update) simp_all
  with h show "recommendations (batchUpdateOutcomes ups data) ! k =
      (recommendations data ! k)
        \<lparr>outcome := Some (upd_outcome u), reviewedAt := Some (toISOString t),
         reviewNotes := Some (upd_notes u)\<rparr>"
    by (simp add: batchUpdateOutcomes_def)
qed

theorem batchUpdateOutcomes_by_id_witness:
  "batchUpdateOutcomes
     [(1704243600000, \<lparr>upd_id = ''xyz-9'', upd_outcome = ''wrong'', upd_notes = ''late''\<rparr>)]
     twoCalls = twoCalls
   \<and> recommendations (batchUpdateOutcomes
       [(1704243600000, \<lparr>upd_id = ''xyz-9'', upd_outcome = ''wrong'', upd_notes = ''late''\<rparr>),
        (1704243600007, \<lparr>upd_id = ''abc-2'', upd_outcome = ''correct'', upd_notes = ''held''\<rparr>)]
       twoCalls) ! 1 =
     (recommendations twoCalls ! 1)
       \<lparr>outcome := Some ''correct'', reviewedAt := Some (toISOString 1704243600007),
        reviewNotes := Some ''held''\<rparr>"
proof -
  let ?unknown = "(1704243600000 :: int,
      \<lparr>upd_id = ''xyz-9'', upd_outcome = ''wrong'', upd_notes = ''late''\<rparr>)"
  let ?known = "\<lparr>upd_id = ''abc-2'', upd_outcome = ''correct'', upd_notes = ''held''\<rparr>"
  have absent: "list_all (\<lambda>p. upd_id (snd p) \<notin> rec_id ` set (recommendations twoCalls))
      [?unknown]"
    by (simp add: twoCalls_def)
  have noop: "batchUpdateOutcomes [?unknown] twoCalls = twoCalls"
    by (rule batchUpdateOutcomes_by_id [THEN conjunct1, THEN mp, OF absent])
  have present: "[?unknown, (1704243600007, ?known)] = [?unknown] @ (1704243600007, ?known) # []
      \<and> 1 < length (recommendations twoCalls)
      \<and> rec_id (recommendations twoCalls ! 1) = upd_id ?known
      \<and> (\<forall>j<1. rec_id (recommendations twoCalls ! j) \<noteq> upd_id ?known)
      \<and> list_all (\<lambda>p. upd_id ?known \<noteq> upd_id (snd p)) []"
    by (simp add: twoCalls_def)
  have "recommendations (batchUpdateOutcomes [?unknown, (1704243600007, ?known)] twoCalls) ! 1 =
      (recommendations twoCalls ! 1)
        \<lparr>outcome := Some (upd_outcome ?known), reviewedAt := Some (toISOString 1704243600007),
         reviewNotes := Some (upd_notes ?known)\<rparr>"
    by (rule batchUpdateOutcomes_by_id [THEN conjunct2, THEN conjunct2, THEN conjunct2,
          THEN spec, THEN spec, THEN spec, THEN spec, THEN spec, THEN mp, OF present])
  then have upd: "recommendations
        (batchUpdateOutcomes [?unknown, (1704243600007, ?known)] twoCalls) ! 1 =
      (recommendations twoCalls ! 1)
        \<lparr>outcome := Some ''correct'', reviewedAt := Some (toISOString 1704243600007),
         reviewNotes := Some ''held''\<rparr>"
    by (simp only: OutcomeUpdate.simps)
  from noop upd show ?thesis by (rule conjI)
qed

section \<open>The ledger: pending reviews\<close>

text \<open>
  C1, evaluated where it fails. At 20:00 on Tuesday 2024-01-02 in New York (clock
  1704243600000, 01:00 UTC on 2024-01-03; the offset is -5 hours) the date in the
  configured time zone is 2024-01-02, and \<^verbatim>\<open>getPendingReviews\<close> returns the call that the
  morning brief recorded at 08:30 that same New York day, dated 2024-01-02.
\<close>

theorem getPendingReviews_same_day:
  "getTodayET (- 18000000) 1704243600000 = ''2024-01-02''
   \<and> map date (getPendingReviews 1704243600000
         (recordRecommendation 1704202200000 morningCall defaultPerformance)) =
       [''2024-01-02'']"
  by code_simp

section \<open>Doubles: the rounding is the nearest one\<close>

lemma bitLen_bounds:
  "0 < x \<Longrightarrow> 1 \<le> bitLen x \<and> 2 ^ nat (bitLen x - 1) \<le> x \<and> x < 2 ^ nat (bitLen x)"
proof (induction x rule: bitLen.induct)
  case (1 n)
  show ?case
  proof (cases "n = 1")
    case True
    then have "bitLen n = 1"
      by (simp add: bitLen.simps [of 1] bitLen.simps [of 0])
    with True show ?thesis by simp
  next
    case False
    with "1.prems" have pos: "0 < n div 2" by simp
    let ?b = "bitLen (n div 2)"
    from "1.IH" pos "1.prems" have ih: "1 \<le> ?b" "2 ^ nat (?b - 1) \<le> n div 2"
      "n div 2 < 2 ^ nat ?b"
      by simp_all
    have bl: "bitLen n = 1 + ?b" using "1.prems" by (simp add: bitLen.simps [of n])
    have e1: "nat (1 + ?b - 1) = Suc (nat (?b - 1))" using ih(1) by simp
    have e2: "nat (1 + ?b) = Suc (nat ?b)" using ih(1) by simp
    have e3: "nat ?b = Suc (nat (?b - 1))" using ih(1) by simp
    have lo: "2 ^ nat (1 + ?b - 1) \<le> n"
    proof -
      have "(2::int) ^ nat (1 + ?b - 1) = 2 * 2 ^ nat (?b - 1)" by (simp only: e1 power_Suc)
      also have "\<dots> \<le> 2 * (n div 2)" using ih(2) by simp
      also have "\<dots> \<le> n" by simp
      finally show ?thesis .
    qed
    have hi: "n < 2 ^ nat (1 + ?b)"
    proof -
      have "n div 2 + 1 \<le> 2 ^ nat ?b" using ih(3) by simp
      then have "2 * (n div 2) + 2 \<le> 2 * 2 ^ nat ?b" by simp
      moreover have "n \<le> 2 * (n div 2) + 1" by simp
      ultimately have "n < 2 * 2 ^ nat ?b" by linarith
      then show ?thesis by (simp only: e2 power_Suc)
    qed
    from lo hi ih(1) bl show ?thesis by simp
  qed
qed

lemma powi_nat: "0 \<le> k \<Longrightarrow> (2::real) powi k = 2 ^ nat k"
  by (simp add: power_int_def)

lemma bitLen_real:
  assumes "0 < x"
  shows "(2::real) powi (bitLen x - 1) \<le> real_of_int x" "real_of_int x < 2 powi (bitLen x)"
proof -
  from bitLen_bounds [OF assms] have b: "1 \<le> bitLen x" and lo: "2 ^ nat (bitLen x - 1) \<le> x"
    and hi: "x < 2 ^ nat (bitLen x)" by simp_all
  have "(2::real) powi (bitLen x - 1) = real_of_int (2 ^ nat (bitLen x - 1))"
    using b by (simp add: powi_nat)
  also have "\<dots> \<le> real_of_int x" using lo by (simp only: of_int_le_iff)
  finally show "(2::real) powi (bitLen x - 1) \<le> real_of_int x" .
  have "real_of_int x < real_of_int (2 ^ nat (bitLen x))" using hi by (simp only: of_int_less_iff)
  also have "\<dots> = 2 powi (bitLen x)" using b by (simp add: powi_nat)
  finally show "real_of_int x < 2 powi (bitLen x)" .
qed

lemma scaled_val:
  assumes "0 < den" and "scaled num den e = (n, d)"
  shows "0 < d" and "real_of_int n / real_of_int d =
     real_of_int num / real_of_int den * 2 powi (- e)"
proof -
  show "0 < d" using assms by (auto simp add: scaled_def split: if_splits)
  show "real_of_int n / real_of_int d = real_of_int num / real_of_int den * 2 powi (- e)"
  proof (cases "0 \<le> e")
    case True
    with assms have nd: "n = num" "d = den * 2 ^ nat e" by (simp_all add: scaled_def)
    have pw: "(2::real) powi (- e) = inverse (2 ^ nat e)"
      using True by (simp add: power_int_minus powi_nat)
    have "real_of_int n / real_of_int d =
        real_of_int num / (real_of_int den * 2 ^ nat e)"
      by (simp add: nd)
    also have "\<dots> = real_of_int num / real_of_int den * inverse (2 ^ nat e)"
      by (simp add: divide_simps)
    finally show ?thesis by (simp only: pw)
  next
    case False
    with assms have "n = num * 2 ^ nat (- e)" "d = den" by (simp_all add: scaled_def)
    moreover have "(2::real) powi (- e) = 2 ^ nat (- e)"
      using False by (simp add: powi_nat)
    ultimately show ?thesis by simp
  qed
qed

lemma roundHalfEven_nearest:
  assumes "0 < d"
  shows "\<bar>2 * (roundHalfEven n d * d - n)\<bar> \<le> d"
proof -
  define q where "q = n div d"
  define r where "r = n mod d"
  have m: "q * d + r = n" by (simp add: q_def r_def)
  have r: "0 \<le> r" "r < d" using assms by (simp_all add: r_def)
  have a: "q * d - n = - r" using m by simp
  have "(q + 1) * d = q * d + d" by (simp add: algebra_simps)
  then have b: "(q + 1) * d - n = d - r" using m by simp
  have "roundHalfEven n d = q \<and> 2 * r \<le> d \<or> roundHalfEven n d = q + 1 \<and> d \<le> 2 * r"
    by (auto simp add: roundHalfEven_def Let_def q_def r_def)
  then show ?thesis
  proof
    assume h: "roundHalfEven n d = q \<and> 2 * r \<le> d"
    then have "2 * (roundHalfEven n d * d - n) = - (2 * r)" using a by simp
    with h r show ?thesis by simp
  next
    assume h: "roundHalfEven n d = q + 1 \<and> d \<le> 2 * r"
    then have "2 * (roundHalfEven n d * d - n) = 2 * d - 2 * r" using b by simp
    with h r show ?thesis by simp
  qed
qed


lemma powi_split: "(2::real) powi (a + b) = 2 powi a * 2 powi b"
  by (simp add: power_int_add)

lemma powi_pos: "0 < (2::real) powi k"
  by simp

lemma quotient_range:
  assumes "0 < num" and "0 < den"
  shows "(2::real) powi (bitLen num - bitLen den - 1) < real_of_int num / real_of_int den"
    and "real_of_int num / real_of_int den < 2 powi (bitLen num - bitLen den + 1)"
proof -
  let ?a = "bitLen num" and ?b = "bitLen den"
  have n: "(2::real) powi (?a - 1) \<le> real_of_int num" "real_of_int num < 2 powi ?a"
    using bitLen_real [OF assms(1)] by simp_all
  have d: "(2::real) powi (?b - 1) \<le> real_of_int den" "real_of_int den < 2 powi ?b"
    using bitLen_real [OF assms(2)] by simp_all
  have dpos: "0 < real_of_int den" using assms(2) by simp
  have npos: "0 < real_of_int num" using assms(1) by simp
  have "(2::real) powi (?a - ?b - 1) * real_of_int den < 2 powi (?a - ?b - 1) * 2 powi ?b"
    using d(2) by (simp add: mult_strict_left_mono)
  also have "\<dots> = 2 powi (?a - 1)"
    using powi_split [of "?a - ?b - 1" ?b] by simp
  also have "\<dots> \<le> real_of_int num" by (rule n(1))
  finally show "(2::real) powi (?a - ?b - 1) < real_of_int num / real_of_int den"
    using dpos by (simp add: pos_less_divide_eq)
  have "real_of_int num < 2 powi ?a" by (rule n(2))
  also have "\<dots> = 2 powi (?a - ?b + 1) * 2 powi (?b - 1)"
    using powi_split [of "?a - ?b + 1" "?b - 1"] by simp
  also have "\<dots> \<le> 2 powi (?a - ?b + 1) * real_of_int den"
    using d(1) by (simp add: mult_left_mono)
  finally show "real_of_int num / real_of_int den < 2 powi (?a - ?b + 1)"
    using dpos by (simp add: pos_divide_less_eq)
qed

lemma roundDouble_correctly_rounded:
  assumes num: "0 < num" and den: "0 < den" and rd: "roundDouble num den = (m, e)"
  shows "2 ^ 52 \<le> m" and "m \<le> 2 ^ 53"
    and "\<bar>real_of_int m * 2 powi e - real_of_int num / real_of_int den\<bar> \<le> 2 powi e / 2"
proof -
  define R where "R = real_of_int num / real_of_int den"
  define k0 where "k0 = bitLen num - bitLen den"
  obtain n0 d0 where s0: "scaled num den k0 = (n0, d0)" by (cases "scaled num den k0")
  define k where "k = (if d0 \<le> n0 then k0 else k0 - 1)"
  obtain n d where s: "scaled num den (k - 52) = (n, d)" by (cases "scaled num den (k - 52)")
  from rd num s0 s have me: "m = roundHalfEven n d" "e = k - 52"
    by (simp_all add: roundDouble_def Let_def k0_def k_def split: if_splits)
  have range0: "2 powi (k0 - 1) < R" "R < 2 powi (k0 + 1)"
    using quotient_range [OF num den] by (simp_all add: R_def k0_def)
  have d0pos: "0 < d0" and v0: "real_of_int n0 / real_of_int d0 = R * 2 powi (- k0)"
    using scaled_val [OF den s0] by (simp_all add: R_def)
  have cmp: "d0 \<le> n0 \<longleftrightarrow> 2 powi k0 \<le> R"
  proof -
    have "d0 \<le> n0 \<longleftrightarrow> 1 \<le> real_of_int n0 / real_of_int d0"
      using d0pos by (simp add: pos_le_divide_eq)
    also have "\<dots> \<longleftrightarrow> 1 \<le> R * 2 powi (- k0)" by (simp only: v0)
    also have "\<dots> \<longleftrightarrow> 2 powi k0 \<le> R"
      by (simp add: power_int_minus field_simps)
    finally show ?thesis .
  qed
  have rangek: "2 powi k \<le> R" "R < 2 powi (k + 1)"
  proof -
    show "2 powi k \<le> R"
    proof (cases "d0 \<le> n0")
      case True
      with cmp show ?thesis by (simp add: k_def)
    next
      case False
      with range0(1) show ?thesis by (simp add: k_def)
    qed
    show "R < 2 powi (k + 1)"
    proof (cases "d0 \<le> n0")
      case True
      with range0(2) show ?thesis by (simp add: k_def)
    next
      case False
      with cmp have "R < 2 powi k0" by simp
      with False show ?thesis by (simp add: k_def)
    qed
  qed
  have dpos: "0 < d" and v: "real_of_int n / real_of_int d = R * 2 powi (52 - k)"
    using scaled_val [OF den s] by (simp_all add: R_def)
  have p52: "(2::real) powi k * 2 powi (52 - k) = 2 ^ 52"
    using powi_split [of k "52 - k", symmetric] by (simp add: powi_nat)
  have p53: "(2::real) powi (k + 1) * 2 powi (52 - k) = 2 ^ 53"
    using powi_split [of "k + 1" "52 - k", symmetric] by (simp add: powi_nat)
  have lo: "(2::real) ^ 52 \<le> real_of_int n / real_of_int d"
  proof -
    have "(2::real) powi k * 2 powi (52 - k) \<le> R * 2 powi (52 - k)"
      using rangek(1) by (simp add: mult_right_mono)
    then show ?thesis by (simp only: p52 v)
  qed
  have hi: "real_of_int n / real_of_int d < (2::real) ^ 53"
  proof -
    have "R * 2 powi (52 - k) < (2::real) powi (k + 1) * 2 powi (52 - k)"
      using rangek(2) by (simp add: mult_strict_right_mono)
    then show ?thesis by (simp only: p53 v)
  qed
  have lo_int: "2 ^ 52 * d \<le> n"
  proof -
    from lo dpos have "(2::real) ^ 52 * real_of_int d \<le> real_of_int n"
      by (simp add: pos_le_divide_eq)
    then have "real_of_int (2 ^ 52 * d) \<le> real_of_int n" by simp
    then show ?thesis by (simp only: of_int_le_iff)
  qed
  have hi_int: "n < 2 ^ 53 * d"
  proof -
    from hi dpos have "real_of_int n < (2::real) ^ 53 * real_of_int d"
      by (simp add: pos_divide_less_eq)
    then have "real_of_int n < real_of_int (2 ^ 53 * d)" by simp
    then show ?thesis by (simp only: of_int_less_iff)
  qed
  have near: "\<bar>2 * (m * d - n)\<bar> \<le> d"
    unfolding me(1) using dpos by (rule roundHalfEven_nearest)
  show m_lo: "2 ^ 52 \<le> m"
  proof (rule ccontr)
    assume "\<not> 2 ^ 52 \<le> m"
    then have "m + 1 \<le> 2 ^ 52" by simp
    then have "(m + 1) * d \<le> 2 ^ 52 * d" using dpos by (simp only: mult_right_mono less_imp_le)
    with lo_int have "m * d + d \<le> n" by (simp add: algebra_simps)
    with near dpos show False by (simp add: abs_if split: if_splits)
  qed
  show m_hi: "m \<le> 2 ^ 53"
  proof (rule ccontr)
    assume "\<not> m \<le> 2 ^ 53"
    then have "2 ^ 53 + 1 \<le> m" by simp
    then have "(2 ^ 53 + 1) * d \<le> m * d" using dpos by (simp only: mult_right_mono less_imp_le)
    with hi_int have "n + d < m * d" by (simp add: algebra_simps)
    with near dpos show False by (simp add: abs_if split: if_splits)
  qed
  show "\<bar>real_of_int m * 2 powi e - real_of_int num / real_of_int den\<bar> \<le> 2 powi e / 2"
  proof -
    have Rv: "R = real_of_int n / real_of_int d * 2 powi e"
    proof -
      have "(2::real) powi (52 - k) * 2 powi e = 1"
        using powi_split [of "52 - k" e, symmetric] by (simp add: me(2))
      then have "R * 2 powi (52 - k) * 2 powi e = R" by (simp add: mult.assoc)
      then show ?thesis by (simp only: v)
    qed
    have "\<bar>real_of_int (2 * (m * d - n))\<bar> \<le> real_of_int d"
      using near by (simp only: of_int_abs [symmetric] of_int_le_iff)
    then have "\<bar>2 * (real_of_int m * real_of_int d - real_of_int n)\<bar> \<le> real_of_int d"
      by simp
    then have "\<bar>real_of_int m - real_of_int n / real_of_int d\<bar> \<le> 1 / 2"
      using dpos by (simp add: field_simps abs_if split: if_splits)
    then have "\<bar>real_of_int m - real_of_int n / real_of_int d\<bar> * 2 powi e \<le> 1 / 2 * 2 powi e"
      by (simp only: mult_right_mono powi_pos less_imp_le)
    moreover have "\<bar>real_of_int m * 2 powi e - R\<bar> =
        \<bar>real_of_int m - real_of_int n / real_of_int d\<bar> * 2 powi e"
    proof -
      have "real_of_int m * 2 powi e - R =
          (real_of_int m - real_of_int n / real_of_int d) * 2 powi e"
        unfolding Rv by (simp only: left_diff_distrib)
      then have "\<bar>real_of_int m * 2 powi e - R\<bar> =
          \<bar>real_of_int m - real_of_int n / real_of_int d\<bar> * \<bar>(2::real) powi e\<bar>"
        by (simp only: abs_mult)
      then show ?thesis by simp
    qed
    ultimately show ?thesis by (simp add: R_def)
  qed
qed


lemma roundDouble_relative:
  assumes num: "0 < num" and den: "0 < den" and rd: "roundDouble num den = (m, e)"
  shows "0 < real_of_int m * 2 powi e"
    and "\<bar>real_of_int m * 2 powi e - real_of_int num / real_of_int den\<bar>
         \<le> real_of_int m * 2 powi e / 2 ^ 53"
proof -
  from roundDouble_correctly_rounded [OF num den rd]
  have m: "2 ^ 52 \<le> m"
    and err: "\<bar>real_of_int m * 2 powi e - real_of_int num / real_of_int den\<bar> \<le> 2 powi e / 2"
    by simp_all
  from m have mr: "(2::real) ^ 52 \<le> real_of_int m"
    by (metis of_int_le_iff of_int_numeral of_int_power)
  have p52: "(0::int) < 2 ^ 52" by simp
  have "0 < m" by (rule less_le_trans [OF p52 m])
  then show "0 < real_of_int m * 2 powi e" by (simp add: zero_less_mult_iff)
  have "(2::real) powi e / 2 = 2 ^ 52 * 2 powi e / 2 ^ 53" by simp
  also have "\<dots> \<le> real_of_int m * 2 powi e / 2 ^ 53"
    using mr by (simp add: divide_right_mono mult_right_mono)
  finally show "\<bar>real_of_int m * 2 powi e - real_of_int num / real_of_int den\<bar>
      \<le> real_of_int m * 2 powi e / 2 ^ 53"
    using err by linarith
qed

lemma fracOf_val:
  assumes "fracOf (m, e) = (n, d)"
  shows "0 < d" and "real_of_int n / real_of_int d = real_of_int m * 2 powi e"
proof -
  from assms have s: "scaled m 1 (- e) = (n, d)" by (simp add: fracOf_def)
  show "0 < d" using scaled_val(1) [OF _ s] by simp
  show "real_of_int n / real_of_int d = real_of_int m * 2 powi e"
    using scaled_val(2) [OF _ s] by simp
qed

lemma mathRound_floor:
  assumes "fracOf x = (n, d)" and "0 < d"
  shows "mathRound x = \<lfloor>real_of_int n / real_of_int d + 1 / 2\<rfloor>"
proof -
  have "real_of_int n / real_of_int d + 1 / 2 =
      real_of_int (2 * n + d) / real_of_int (2 * d)"
    using assms(2) by (simp add: field_simps)
  then have "\<lfloor>real_of_int n / real_of_int d + 1 / 2\<rfloor> = (2 * n + d) div (2 * d)"
    by (simp only: floor_divide_of_int_eq)
  with assms(1) show ?thesis by (simp add: mathRound_def)
qed


lemma weeklyAccuracy_zero: "weeklyAccuracy 0 0 calls = 0"
  by (simp add: weeklyAccuracy_def roundDouble_def dmul_def fracOf_def scaled_def mathRound_def)

lemma double_error:
  assumes x: "0 < x" and r: "0 \<le> (r::real)" and e: "\<bar>x - r\<bar> \<le> x / 2 ^ 53" and b: "r \<le> B"
  shows "x \<le> 2 * B" and "\<bar>x - r\<bar> \<le> 2 * B / 2 ^ 53"
proof -
  have "x - r \<le> x / 2 ^ 53" using e by linarith
  then have "x - x / 2 ^ 53 \<le> B" using b by linarith
  moreover have "x / 2 \<le> x - x / 2 ^ 53" using x by (simp add: field_simps)
  ultimately show xb: "x \<le> 2 * B" by linarith
  have "x / 2 ^ 53 \<le> 2 * B / 2 ^ 53" using xb by (simp add: divide_right_mono)
  with e show "\<bar>x - r\<bar> \<le> 2 * B / 2 ^ 53" by linarith
qed

lemma accuracy_value:
  assumes a: "0 < a" and le: "a \<le> N"
  shows "\<exists>x. mathRound (dmul (roundDouble a N) 100) = \<lfloor>x + 1 / 2\<rfloor>
         \<and> \<bar>x - 100 * (real_of_int a / real_of_int N)\<bar> \<le> 600 / 2 ^ 53"
proof -
  from a le have N: "0 < N" by simp
  define q where "q = real_of_int a / real_of_int N"
  have q: "0 \<le> q" "q \<le> 1" using a le N by (simp_all add: q_def)
  obtain m1 e1 where r1: "roundDouble a N = (m1, e1)" by (cases "roundDouble a N")
  define x1 where "x1 = real_of_int m1 * 2 powi e1"
  have x1: "0 < x1" "\<bar>x1 - q\<bar> \<le> x1 / 2 ^ 53"
    using roundDouble_relative [OF a N r1] by (simp_all add: x1_def q_def)
  have x1b: "x1 \<le> 2 * 1" "\<bar>x1 - q\<bar> \<le> 2 * 1 / 2 ^ 53"
    using double_error [OF x1(1) q(1) x1(2) q(2)] by simp_all
  obtain n1 d1 where f1: "fracOf (m1, e1) = (n1, d1)" by (cases "fracOf (m1, e1)")
  have d1: "0 < d1" and v1: "real_of_int n1 / real_of_int d1 = x1"
    using fracOf_val [OF f1] by (simp_all add: x1_def)
  have n1: "0 < n1"
  proof -
    from v1 d1 have "real_of_int n1 = x1 * real_of_int d1" by (simp add: field_simps)
    with x1(1) d1 have "0 < real_of_int n1" by simp
    then show ?thesis by simp
  qed
  obtain m2 e2 where r2: "roundDouble (n1 * 100) d1 = (m2, e2)"
    by (cases "roundDouble (n1 * 100) d1")
  have dm: "dmul (roundDouble a N) 100 = (m2, e2)"
    by (simp add: r1 dmul_def f1 r2)
  define x2 where "x2 = real_of_int m2 * 2 powi e2"
  have n100: "0 < n1 * 100" using n1 by simp
  have v100: "real_of_int (n1 * 100) / real_of_int d1 = 100 * x1"
    by (simp add: v1 [symmetric])
  have x2: "0 < x2" "\<bar>x2 - 100 * x1\<bar> \<le> x2 / 2 ^ 53"
    using roundDouble_relative [OF n100 d1 r2] by (simp_all only: x2_def [symmetric] v100)
  have h1: "0 \<le> 100 * x1" "100 * x1 \<le> 200" using x1(1) x1b(1) by simp_all
  have x2b: "\<bar>x2 - 100 * x1\<bar> \<le> 2 * 200 / 2 ^ 53"
    using double_error(2) [OF x2(1) h1(1) x2(2) h1(2)] .
  have "\<bar>x2 - 100 * q\<bar> \<le> \<bar>x2 - 100 * x1\<bar> + 100 * \<bar>x1 - q\<bar>"
    by (simp add: abs_if split: if_splits)
  also have "\<dots> \<le> 2 * 200 / 2 ^ 53 + 100 * (2 * 1 / 2 ^ 53)"
    using x2b x1b(2) by (intro add_mono mult_left_mono) simp_all
  also have "\<dots> = 600 / 2 ^ 53" by simp
  finally have close: "\<bar>x2 - 100 * q\<bar> \<le> 600 / 2 ^ 53" .
  obtain n2 d2 where f2: "fracOf (m2, e2) = (n2, d2)" by (cases "fracOf (m2, e2)")
  have d2: "0 < d2" and v2: "real_of_int n2 / real_of_int d2 = x2"
    using fracOf_val [OF f2] by (simp_all add: x2_def)
  have "mathRound (dmul (roundDouble a N) 100) = \<lfloor>x2 + 1 / 2\<rfloor>"
    using mathRound_floor [OF f2 d2] by (simp add: dm v2)
  with close show ?thesis unfolding q_def by blast
qed

lemma weeklyAccuracy_close:
  assumes calls: "0 < calls" and small: "calls \<le> 2 ^ 32" and sum: "c + p \<le> calls"
  shows "weeklyAccuracy c p calls = exactAccuracy c p calls
       \<or> weeklyAccuracy c p calls = exactAccuracy c p calls - 1"
    and "((2 * int c + int p) * 100 + int calls) mod (2 * int calls) \<noteq> 0 \<Longrightarrow>
         weeklyAccuracy c p calls = exactAccuracy c p calls"
proof -
  define a where "a = 2 * int c + int p"
  define N where "N = 2 * int calls"
  define E where "E = (a * 100 + int calls) div N"
  define r where "r = (a * 100 + int calls) mod N"
  have N: "0 < N" using calls by (simp add: N_def)
  have aN: "0 \<le> a" "a \<le> N" using sum by (simp_all add: a_def N_def)
  have Edef: "exactAccuracy c p calls = E" by (simp add: exactAccuracy_def E_def a_def N_def)
  have r: "0 \<le> r" "r < N" using N by (simp_all add: r_def)
  have split: "a * 100 + int calls = E * N + r" by (simp add: E_def r_def)
  have both: "(weeklyAccuracy c p calls = E \<or> weeklyAccuracy c p calls = E - 1)
      \<and> (r \<noteq> 0 \<longrightarrow> weeklyAccuracy c p calls = E)"
  proof (cases "a = 0")
    case True
    then have "c = 0" "p = 0" by (simp_all add: a_def)
    then have w: "weeklyAccuracy c p calls = 0" by (simp add: weeklyAccuracy_zero)
    from True calls have "E = 0" by (simp add: E_def N_def)
    with w show ?thesis by simp
  next
    case False
    with aN have apos: "0 < a" by simp
    obtain x where w: "weeklyAccuracy c p calls = \<lfloor>x + 1 / 2\<rfloor>"
      and close: "\<bar>x - 100 * (real_of_int a / real_of_int N)\<bar> \<le> 600 / 2 ^ 53"
      using accuracy_value [OF apos aN(2)]
      by (auto simp add: weeklyAccuracy_def a_def N_def)
    define y where "y = 100 * (real_of_int a / real_of_int N) + 1 / 2"
    have Nr: "0 < real_of_int N" using N by simp
    have "y = real_of_int (a * 100 + int calls) / real_of_int N"
      using calls by (simp add: y_def N_def field_simps)
    also have "\<dots> = real_of_int (E * N + r) / real_of_int N" by (simp only: split)
    also have "\<dots> = real_of_int E + real_of_int r / real_of_int N"
      using Nr by (simp add: field_simps)
    finally have y: "y = real_of_int E + real_of_int r / real_of_int N" .
    have gap: "(600::real) / 2 ^ 53 < 1 / real_of_int N"
    proof -
      have "real_of_int N \<le> 2 ^ 33"
      proof -
        from small have "int calls \<le> 2 ^ 32" by (metis of_nat_le_iff of_nat_numeral of_nat_power)
        then have "N \<le> 2 ^ 33" by (simp add: N_def)
        then show ?thesis by (metis of_int_le_iff of_int_numeral of_int_power)
      qed
      then have "1 / (2::real) ^ 33 \<le> 1 / real_of_int N"
        using Nr by (simp add: frac_le)
      moreover have "(600::real) / 2 ^ 53 < 1 / 2 ^ 33" by simp
      ultimately show ?thesis by linarith
    qed
    have zy: "\<bar>(x + 1 / 2) - y\<bar> < 1 / real_of_int N"
      using close gap by (simp add: y_def)
    have rlo: "0 \<le> real_of_int r / real_of_int N" using r(1) Nr by simp
    have rhi: "real_of_int r / real_of_int N \<le> 1 - 1 / real_of_int N"
    proof -
      from r(2) have "r \<le> N - 1" by simp
      then have "real_of_int r \<le> real_of_int N - 1" by (metis of_int_le_iff of_int_diff of_int_1)
      then have "real_of_int r / real_of_int N \<le> (real_of_int N - 1) / real_of_int N"
        using Nr by (simp add: divide_right_mono)
      also have "\<dots> = 1 - 1 / real_of_int N" using Nr by (simp add: field_simps)
      finally show ?thesis .
    qed
    have N1: "1 / real_of_int N \<le> 1" using N by simp
    have lower: "real_of_int (E - 1) \<le> x + 1 / 2"
      using zy y rlo N1 by linarith
    have upper: "x + 1 / 2 < real_of_int (E + 1)"
      using zy y rhi by linarith
    from lower have "E - 1 \<le> \<lfloor>x + 1 / 2\<rfloor>" by (simp only: le_floor_iff)
    moreover from upper have "\<lfloor>x + 1 / 2\<rfloor> < E + 1" by (simp only: floor_less_iff)
    ultimately have range: "weeklyAccuracy c p calls = E \<or> weeklyAccuracy c p calls = E - 1"
      unfolding w by linarith
    have "weeklyAccuracy c p calls = E" if "r \<noteq> 0"
    proof -
      from that r(1) have "1 \<le> r" by simp
      then have "1 \<le> real_of_int r" by simp
      then have "1 / real_of_int N \<le> real_of_int r / real_of_int N"
        using Nr by (simp add: divide_right_mono)
      with zy y have "real_of_int E \<le> x + 1 / 2" by linarith
      then have "E \<le> \<lfloor>x + 1 / 2\<rfloor>" by (simp only: le_floor_iff)
      with range show ?thesis unfolding w by linarith
    qed
    with range show ?thesis by simp
  qed
  from both show "weeklyAccuracy c p calls = exactAccuracy c p calls
       \<or> weeklyAccuracy c p calls = exactAccuracy c p calls - 1"
    by (simp add: Edef)
  assume "((2 * int c + int p) * 100 + int calls) mod (2 * int calls) \<noteq> 0"
  then have "r \<noteq> 0" by (simp add: r_def a_def N_def)
  with both show "weeklyAccuracy c p calls = exactAccuracy c p calls" by (simp add: Edef)
qed

lemma count_le_length:
  "countOutcome ''correct'' w + countOutcome ''partial'' w \<le> length w"
  unfolding countOutcome_def by (induction w) auto

section \<open>The matcher\<close>

lemma withCap_Some:
  "withCap c m r = Some (caps, rest) \<longleftrightarrow>
     (\<exists>caps'. r = Some (caps', rest) \<and> caps = (if c then m # caps' else caps'))"
  by (auto simp add: withCap_def split: option.splits)

lemma mtch_caps_aux:
  "(\<forall>caps rest. mtch re s = Some (caps, rest) \<longrightarrow> capsOK re caps)"
  "(\<forall>caps rest. mtchRep c r s lo k = Some (caps, rest) \<longrightarrow>
      (if c then (\<exists>m ms. caps = m # ms \<and> capsOK r ms) else capsOK r caps))"
  "(\<forall>caps rest. mtchAlt c r s ls = Some (caps, rest) \<longrightarrow>
      (if c then (\<exists>m ms. caps = m # ms \<and> list_ex (\<lambda>l. map canon m = map canon l) ls
                    \<and> capsOK r ms)
       else capsOK r caps))"
proof (induction re s and c r s lo k and c r s ls rule: mtch_mtchRep_mtchAlt.induct)
  case (1 s)
  show ?case by simp
next
  case (2 c l r s)
  then show ?case
    by (auto simp add: withCap_Some ciPrefix_def split: if_splits)
next
  case (3 c ls r s)
  then show ?case by auto
next
  case (4 c P lo hi r s)
  then show ?case by (auto split: if_splits)
next
  case (5 c r s lo k)
  show ?case
  proof (intro allI impI)
    fix caps rest
    assume m: "mtchRep c r s lo k = Some (caps, rest)"
    show "if c then \<exists>m ms. caps = m # ms \<and> capsOK r ms else capsOK r caps"
    proof (cases "withCap c (take k s) (mtch r (drop k s))")
      case None
      with m have "lo < k" and "mtchRep c r s lo (k - 1) = Some (caps, rest)"
        by (simp_all add: mtchRep.simps [of c r s lo k] split: if_splits)
      with 5(2) [OF None] show ?thesis by blast
    next
      case (Some a)
      with m have "withCap c (take k s) (mtch r (drop k s)) = Some (caps, rest)"
        by (simp add: mtchRep.simps [of c r s lo k])
      then obtain caps' where "mtch r (drop k s) = Some (caps', rest)"
        and "caps = (if c then take k s # caps' else caps')"
        by (auto simp add: withCap_Some)
      with 5(1) show ?thesis by auto
    qed
  qed
next
  case (6 c r s)
  show ?case by simp
next
  case (7 c r s l ls)
  show ?case
  proof (intro allI impI)
    fix caps rest
    assume m: "mtchAlt c r s (l # ls) = Some (caps, rest)"
    let ?first = "if ciPrefix l s then withCap c (take (length l) s) (mtch r (drop (length l) s))
            else None"
    show "if c then \<exists>m ms. caps = m # ms
              \<and> list_ex (\<lambda>l. map canon m = map canon l) (l # ls) \<and> capsOK r ms
          else capsOK r caps"
    proof (cases ?first)
      case None
      with m have "mtchAlt c r s ls = Some (caps, rest)" by simp
      with 7(2) [OF None] show ?thesis by auto
    next
      case (Some a)
      with m have f: "?first = Some (caps, rest)" by simp
      then have pre: "ciPrefix l s" by (simp split: if_splits)
      with f obtain caps' where "mtch r (drop (length l) s) = Some (caps', rest)"
        and "caps = (if c then take (length l) s # caps' else caps')"
        by (auto simp add: withCap_Some)
      with 7(1) [OF pre] pre show ?thesis by (auto simp add: ciPrefix_def)
    qed
  qed
qed

lemma search_caps: "search re s = Some (whole # caps) \<Longrightarrow> capsOK re caps"
proof (induction s)
  case Nil
  then show ?case using mtch_caps_aux(1) [of re "[]"]
    by (auto split: option.splits)
next
  case (Cons x xs)
  then show ?case using mtch_caps_aux(1) [of re "x # xs"]
    by (auto split: option.splits)
qed

lemma toLower_canon: "toLowerChar (canon c) = toLowerChar c"
proof (cases "97 \<le> (of_char c :: int) \<and> (of_char c :: int) \<le> 122")
  case True
  then have c1: "canon c = char_of ((of_char c :: int) - 32)"
    by (simp add: canon_def Let_def)
  have "(of_char (char_of ((of_char c :: int) - 32)) :: int) = of_char c - 32"
    using True by (simp add: of_char_of)
  moreover have "char_of ((of_char c :: int) - 32 + 32) = c" by simp
  ultimately have "toLowerChar (canon c) = c"
    using True by (simp add: c1 toLowerChar_def Let_def)
  moreover have "toLowerChar c = c" using True by (simp add: toLowerChar_def Let_def)
  ultimately show ?thesis by simp
next
  case False
  then show ?thesis by (auto simp add: canon_def Let_def)
qed

lemma toLowerCase_canon_eq:
  assumes "map canon a = map canon b"
  shows "toLowerCase a = toLowerCase b"
proof -
  have "toLowerCase a = map toLowerChar (map canon a)"
    by (simp add: toLowerCase_def toLower_canon)
  also have "\<dots> = map toLowerChar (map canon b)" using assms by simp
  also have "\<dots> = toLowerCase b" by (simp add: toLowerCase_def toLower_canon)
  finally show ?thesis .
qed

lemma lower_literals:
  "toLowerCase ''correct'' = ''correct''" "toLowerCase ''wrong'' = ''wrong''"
  "toLowerCase ''partial'' = ''partial''" "toLowerCase ''skip'' = ''skip''"
  by code_simp+

section \<open>The nightly review: extraction\<close>

lemma reviewFields_outcome:
  assumes "search reviewFieldsRe line = Some [whole, i, oc, notes]"
  shows "toLowerCase oc \<in> {''correct'', ''wrong'', ''partial'', ''skip''}"
proof -
  have "capsOK reviewFieldsRe [i, oc, notes]" using assms by (rule search_caps)
  then have "list_ex (\<lambda>l. map canon oc = map canon l)
      [''correct'', ''wrong'', ''partial'', ''skip'']"
    by (simp add: reviewFieldsRe_def ws0_def)
  then consider "map canon oc = map canon ''correct''" | "map canon oc = map canon ''wrong''"
    | "map canon oc = map canon ''partial''" | "map canon oc = map canon ''skip''"
    by auto
  then show ?thesis
  proof cases
    case 1
    from toLowerCase_canon_eq [OF 1] show ?thesis by (simp add: lower_literals)
  next
    case 2
    from toLowerCase_canon_eq [OF 2] show ?thesis by (simp add: lower_literals)
  next
    case 3
    from toLowerCase_canon_eq [OF 3] show ?thesis by (simp add: lower_literals)
  next
    case 4
    from toLowerCase_canon_eq [OF 4] show ?thesis by (simp add: lower_literals)
  qed
qed

lemma parseLine_outcome:
  assumes "parseLine line = Some u"
  shows "upd_outcome u \<in> {''correct'', ''wrong'', ''partial''}"
proof -
  from assms obtain whole i oc nts
    where s: "search reviewFieldsRe line = Some [whole, i, oc, nts]"
      and ns: "toLowerCase oc \<noteq> ''skip''"
      and u: "u = \<lparr>upd_id = trim i, upd_outcome = toLowerCase oc, upd_notes = trim nts\<rparr>"
    by (auto simp add: parseLine_def split: option.splits list.splits if_splits)
  from reviewFields_outcome [OF s] ns u show ?thesis by auto
qed

lemma parseReview_outcomes:
  "list_all (\<lambda>u. upd_outcome u \<in> {''correct'', ''wrong'', ''partial''}) (parseReview text)"
  unfolding parseReview_def list_all_iff
  by (auto simp add: List.map_filter_def dest: parseLine_outcome)

lemma matchAll_no_keyword:
  "\<not> containsCI ''REVIEW:'' s \<Longrightarrow> matchAll reviewLineRe s = []"
proof (induction s)
  case Nil
  then have "mtch reviewLineRe [] = None"
    by (simp add: reviewLineRe_def)
  then show ?case by (simp add: matchAll.simps [of _ "[]"])
next
  case (Cons x xs)
  then have "mtch reviewLineRe (x # xs) = None"
    by (simp add: reviewLineRe_def)
  with Cons show ?case by (simp add: matchAll.simps [of _ "x # xs"])
qed
section \<open>The nightly review: fragments and lines\<close>

lemma mtch_Rep_take:
  assumes "repMax P hi s = k" and "lo \<le> k" and "mtch r (drop k s) = Some (caps, rest)"
  shows "mtch ((c, Rep P lo hi) # r) s = Some (if c then take k s # caps else caps, rest)"
  using assms by (simp add: mtchRep.simps [of c r s lo k] withCap_def)

lemma canon_LF: "canon (CHR 0x0A) = CHR 0x0A"
  by (simp add: canon_def)

lemma keyword_canon:
  "map canon ''REVIEW:'' = ''REVIEW:''"
  by (simp add: canon_def)

lemma ciPrefix_append_LF:
  assumes "ciPrefix ''REVIEW:'' (u @ CHR 0x0A # t)"
  shows "ciPrefix ''REVIEW:'' u"
proof (cases "7 \<le> length u")
  case True
  have l7: "length ''REVIEW:'' = 7" by simp
  from True assms show ?thesis unfolding ciPrefix_def l7 by simp
next
  case False
  let ?s = "u @ CHR 0x0A # t"
  have l7: "length ''REVIEW:'' = 7" by simp
  from assms have eq: "map canon (take 7 ?s) = ''REVIEW:''" and len: "7 \<le> length ?s"
    unfolding ciPrefix_def l7 keyword_canon by blast+
  from False have lu: "length u < 7" by simp
  have "map canon (take 7 ?s) ! length u = canon (?s ! length u)"
    using lu len by (simp add: nth_append)
  also have "\<dots> = CHR 0x0A" by (simp add: nth_append canon_LF)
  finally have "''REVIEW:'' ! length u = CHR 0x0A" using eq by simp
  moreover have "CHR 0x0A \<notin> set ''REVIEW:''" by simp
  moreover have "''REVIEW:'' ! length u \<in> set ''REVIEW:''"
    using lu by (intro nth_mem) simp
  ultimately show ?thesis by simp
qed

lemma ciPrefix_append:
  "ciPrefix ''REVIEW:'' u \<Longrightarrow> ciPrefix ''REVIEW:'' (u @ t)"
  by (simp add: ciPrefix_def)

lemma mtch_line_no_keyword:
  "\<not> ciPrefix ''REVIEW:'' s \<Longrightarrow> mtch reviewLineRe s = None"
  by (simp add: reviewLineRe_def)

lemma mtch_fields_no_keyword:
  "\<not> ciPrefix ''REVIEW:'' s \<Longrightarrow> mtch reviewFieldsRe s = None"
  by (simp add: reviewFieldsRe_def)

lemma not_ciPrefix_Nil: "\<not> ciPrefix ''REVIEW:'' []"
  by (simp add: ciPrefix_def)

lemma not_ciPrefix_LF: "\<not> ciPrefix ''REVIEW:'' (CHR 0x0A # t)"
  by (simp add: ciPrefix_def canon_def)

lemma isSpace_LF: "isSpace (CHR 0x0A)"
  by (simp add: isSpace_def)

lemma mtch_keyword:
  assumes "ciPrefix ''REVIEW:'' s"
  shows "mtch ((False, Lit ''REVIEW:'') # r) s = mtch r (drop 7 s)"
proof -
  have l7: "length ''REVIEW:'' = 7" by simp
  have "mtch ((False, Lit ''REVIEW:'') # r) s =
      withCap False (take (length ''REVIEW:'') s) (mtch r (drop (length ''REVIEW:'') s))"
    using assms by (simp only: mtch.simps if_True)
  also have "\<dots> = mtch r (drop 7 s)"
    unfolding l7 by (simp add: withCap_def split: option.splits)
  finally show ?thesis .
qed

lemma mtch_fragment:
  assumes kw: "ciPrefix ''REVIEW:'' s"
    and nl: "CHR 0x0A \<notin> set s"
    and ex: "list_ex (\<lambda>c. \<not> isSpace c) (drop 7 s)"
    and tl: "tail = [] \<or> (\<exists>t. tail = CHR 0x0A # t)"
  shows "mtch reviewLineRe (s @ tail) = Some ([dropWhile isSpace (drop 7 s)], tail)"
proof -
  define r where "r = drop 7 s"
  define ws where "ws = takeWhile isSpace r"
  define body where "body = dropWhile isSpace r"
  have len: "7 \<le> length s" using kw by (simp add: ciPrefix_def)
  have r: "r = ws @ body" by (simp add: ws_def body_def)
  have body: "body \<noteq> []" using ex
    by (auto simp add: body_def r_def list_ex_iff)
  then have hd: "\<not> isSpace (hd body)"
    unfolding body_def by (rule hd_dropWhile)
  have nlb: "CHR 0x0A \<notin> set body"
    using nl set_dropWhileD [of _ isSpace r] in_set_dropD [of _ 7 s]
    by (auto simp add: body_def r_def)
  have nlb': "\<And>x. x \<in> set body \<Longrightarrow> x \<noteq> CHR 0x0A" using nlb by auto
  have tw: "takeWhile (\<lambda>c. c \<noteq> CHR 0x0A) (body @ tail) = body"
    using tl by (auto simp add: takeWhile_append2 [OF nlb'])
  have blen: "1 \<le> length body" using body by (cases body) simp_all
  have rm1: "repMax (\<lambda>c. c \<noteq> CHR 0x0A) None (body @ tail) = length body"
    by (simp add: repMax_def tw)
  have e1: "mtch [] (drop (length body) (body @ tail)) = Some ([], tail)" by simp
  have last: "mtch [(True, Rep (\<lambda>c. c \<noteq> CHR 0x0A) 1 None)] (body @ tail) = Some ([body], tail)"
    using mtch_Rep_take [OF rm1 blen e1, of True] by simp
  have allws: "\<And>x. x \<in> set ws \<Longrightarrow> isSpace x"
    unfolding ws_def by (rule set_takeWhileD [THEN conjunct2])
  have "takeWhile isSpace (body @ tail) = []"
    using body hd by (cases body) simp_all
  then have "takeWhile isSpace (ws @ body @ tail) = ws"
    by (simp add: takeWhile_append2 [OF allws])
  then have tws: "takeWhile isSpace (r @ tail) = ws"
    unfolding r by simp
  have rm2: "repMax isSpace None (r @ tail) = length ws"
    by (simp add: repMax_def tws)
  have "drop (length ws) (r @ tail) = body @ tail"
    unfolding r by simp
  then have e2: "mtch [(True, Rep (\<lambda>c. c \<noteq> CHR 0x0A) 1 None)] (drop (length ws) (r @ tail))
      = Some ([body], tail)"
    using last by simp
  have sp: "mtch [ws0, (True, Rep (\<lambda>c. c \<noteq> CHR 0x0A) 1 None)] (r @ tail) = Some ([body], tail)"
    using mtch_Rep_take [OF rm2 _ e2, of 0 False] by (simp add: ws0_def)
  have "ciPrefix ''REVIEW:'' (s @ tail)" using kw by (rule ciPrefix_append)
  moreover have "drop 7 (s @ tail) = r @ tail" using len by (simp add: r_def)
  ultimately have "mtch reviewLineRe (s @ tail) = Some ([body], tail)"
    using sp unfolding reviewLineRe_def by (simp only: mtch_keyword)
  then show ?thesis by (simp add: body_def r_def)
qed

lemma fromKeyword_skip:
  "\<not> ciPrefix ''REVIEW:'' (x # xs) \<Longrightarrow> fromKeyword (x # xs) = fromKeyword xs"
  by (simp only: fromKeyword.simps if_False)

lemma fromKeyword_here:
  "ciPrefix ''REVIEW:'' (x # xs) \<Longrightarrow> fromKeyword (x # xs) = Some (x # xs)"
  by (simp only: fromKeyword.simps if_True)

lemma fieldsOnLine_skip:
  "\<not> ciPrefix ''REVIEW:'' (x # xs) \<Longrightarrow> fieldsOnLine (x # xs) = fieldsOnLine xs"
  by (simp add: fieldsOnLine_def)

lemma fieldsOnLine_here:
  assumes "ciPrefix ''REVIEW:'' (x # xs)" and "fieldsOnLine (x # xs)"
  shows "list_ex (\<lambda>c. \<not> isSpace c) (drop 7 (x # xs))"
proof -
  have l7: "length ''REVIEW:'' = 7" by simp
  from assms(2) show ?thesis
    unfolding fieldsOnLine_def fromKeyword_here [OF assms(1)] l7 by simp
qed

lemma matchAll_tail:
  assumes "tail = [] \<or> (\<exists>t. tail = CHR 0x0A # t)"
  shows "matchAll reviewLineRe tail =
      (case tail of [] \<Rightarrow> [] | x # t \<Rightarrow> matchAll reviewLineRe t)"
proof -
  have "\<not> ciPrefix ''REVIEW:'' tail"
    using assms not_ciPrefix_Nil not_ciPrefix_LF by auto
  then have "mtch reviewLineRe tail = None" by (rule mtch_line_no_keyword)
  then show ?thesis by (simp add: matchAll.simps [of _ tail])
qed

lemma matchAll_line:
  assumes "CHR 0x0A \<notin> set l" and "fieldsOnLine l"
    and tl: "tail = [] \<or> (\<exists>t. tail = CHR 0x0A # t)"
  shows "matchAll reviewLineRe (l @ tail) =
      (case fromKeyword l of None \<Rightarrow> [] | Some s \<Rightarrow> [s])
      @ (case tail of [] \<Rightarrow> [] | x # t \<Rightarrow> matchAll reviewLineRe t)"
  using assms(1,2)
proof (induction l)
  case Nil
  show ?case using matchAll_tail [OF tl] by simp
next
  case (Cons x xs)
  show ?case
  proof (cases "ciPrefix ''REVIEW:'' (x # xs)")
    case True
    note ex = fieldsOnLine_here [OF True Cons.prems(2)]
    have m: "mtch reviewLineRe ((x # xs) @ tail)
        = Some ([dropWhile isSpace (drop 7 (x # xs))], tail)"
      by (rule mtch_fragment [OF True Cons.prems(1) ex tl])
    have "matchAll reviewLineRe ((x # xs) @ tail) = (x # xs) # matchAll reviewLineRe tail"
      by (subst matchAll.simps) (simp add: m del: append_Cons)
    then show ?thesis
      using matchAll_tail [OF tl] True by simp
  next
    case False
    have nk: "\<not> ciPrefix ''REVIEW:'' ((x # xs) @ tail)"
    proof
      assume a: "ciPrefix ''REVIEW:'' ((x # xs) @ tail)"
      from tl show False
      proof
        assume "tail = []" with a False show False by simp
      next
        assume "\<exists>t. tail = CHR 0x0A # t"
        then obtain t where "tail = CHR 0x0A # t" ..
        with a have "ciPrefix ''REVIEW:'' ((x # xs) @ CHR 0x0A # t)" by simp
        then have "ciPrefix ''REVIEW:'' (x # xs)" by (rule ciPrefix_append_LF)
        with False show False ..
      qed
    qed
    have "mtch reviewLineRe ((x # xs) @ tail) = None" using nk by (rule mtch_line_no_keyword)
    then have "matchAll reviewLineRe ((x # xs) @ tail) = matchAll reviewLineRe (xs @ tail)"
      by (subst matchAll.simps) simp
    moreover have "fieldsOnLine xs" using Cons.prems(2) fieldsOnLine_skip [OF False] by simp
    moreover have "CHR 0x0A \<notin> set xs" using Cons.prems(1) by simp
    ultimately show ?thesis
      using Cons.IH False by simp
  qed
qed

lemma matchAll_lines_aux:
  "CHR 0x0A \<notin> set acc \<Longrightarrow> list_all fieldsOnLine (splitLF acc cs) \<Longrightarrow>
   matchAll reviewLineRe (rev acc @ cs) = List.map_filter fromKeyword (splitLF acc cs)"
proof (induction cs arbitrary: acc)
  case Nil
  then show ?case
    using matchAll_line [of "rev acc" "[]"]
    by (simp add: List.map_filter_def split: option.splits)
next
  case (Cons c cs)
  show ?case
  proof (cases "c = CHR 0x0A")
    case True
    have "matchAll reviewLineRe (rev acc @ CHR 0x0A # cs) =
        (case fromKeyword (rev acc) of None \<Rightarrow> [] | Some s \<Rightarrow> [s]) @ matchAll reviewLineRe cs"
      using matchAll_line [of "rev acc" "CHR 0x0A # cs"] Cons.prems by (simp add: True)
    moreover have "matchAll reviewLineRe (rev [] @ cs) = List.map_filter fromKeyword (splitLF [] cs)"
      using Cons.prems by (intro Cons.IH) (simp_all add: True)
    ultimately show ?thesis
      by (simp add: True List.map_filter_def split: option.splits)
  next
    case False
    have "matchAll reviewLineRe (rev (c # acc) @ cs) = List.map_filter fromKeyword (splitLF (c # acc) cs)"
      using Cons.prems False by (intro Cons.IH) simp_all
    then show ?thesis using False by simp
  qed
qed

lemma matchAll_lines:
  "fieldsOnLines response \<Longrightarrow>
   matchAll reviewLineRe response = List.map_filter fromKeyword (linesOf response)"
  using matchAll_lines_aux [of "[]" response] by (simp add: fieldsOnLines_def linesOf_def)

lemma search_fields_skip:
  "\<not> ciPrefix ''REVIEW:'' (x # xs) \<Longrightarrow>
   search reviewFieldsRe (x # xs) = search reviewFieldsRe xs"
  by (simp add: mtch_fields_no_keyword)

lemma parseLine_Nil: "parseLine [] = None"
  using mtch_fields_no_keyword [OF not_ciPrefix_Nil] by (simp add: parseLine_def)

lemma parseLine_fromKeyword:
  "parseLine l = (case fromKeyword l of None \<Rightarrow> None | Some s \<Rightarrow> parseLine s)"
proof (induction l)
  case Nil
  show ?case by (simp add: parseLine_Nil)
next
  case (Cons x xs)
  show ?case
  proof (cases "ciPrefix ''REVIEW:'' (x # xs)")
    case True
    then show ?thesis by (simp add: fromKeyword_here)
  next
    case False
    have "parseLine (x # xs) = parseLine xs"
      unfolding parseLine_def search_fields_skip [OF False] ..
    with Cons show ?thesis by (simp add: fromKeyword_skip [OF False])
  qed
qed

lemma map_filter_fromKeyword:
  "List.map_filter parseLine (List.map_filter fromKeyword ls) = List.map_filter parseLine ls"
proof (induction ls)
  case Nil
  show ?case by (simp add: List.map_filter_def)
next
  case (Cons l ls)
  have "List.map_filter parseLine (l # ls) =
      (case parseLine l of None \<Rightarrow> [] | Some u \<Rightarrow> [u]) @ List.map_filter parseLine ls"
    by (simp add: List.map_filter_def split: option.splits)
  moreover have "List.map_filter parseLine (List.map_filter fromKeyword (l # ls)) =
      (case fromKeyword l of None \<Rightarrow> [] | Some s \<Rightarrow> (case parseLine s of None \<Rightarrow> [] | Some u \<Rightarrow> [u]))
      @ List.map_filter parseLine (List.map_filter fromKeyword ls)"
    by (simp add: List.map_filter_def split: option.splits)
  moreover have "(case fromKeyword l of None \<Rightarrow> [] | Some s \<Rightarrow> (case parseLine s of None \<Rightarrow> [] | Some u \<Rightarrow> [u]))
      = (case parseLine l of None \<Rightarrow> [] | Some u \<Rightarrow> [u])"
    by (subst (2) parseLine_fromKeyword) (simp split: option.splits)
  ultimately show ?case using Cons by simp
qed

lemma parseReview_by_line:
  "fieldsOnLines response \<Longrightarrow> parseReview response = parseByLine response"
  by (simp add: parseReview_def parseByLine_def matchAll_lines map_filter_fromKeyword)

lemma parseLine_no_keyword:
  "\<not> containsCI ''REVIEW:'' l \<Longrightarrow> parseLine l = None"
proof (induction l)
  case Nil
  show ?case by (rule parseLine_Nil)
next
  case (Cons x xs)
  then have nk: "\<not> ciPrefix ''REVIEW:'' (x # xs)" and "\<not> containsCI ''REVIEW:'' xs"
    by simp_all
  with Cons.IH have "parseLine xs = None" by simp
  then show ?case unfolding parseLine_def search_fields_skip [OF nk] .
qed

lemma of_char_toLower_cases:
  assumes "toLowerChar c = d" and "97 \<le> (of_char d :: int)" and "(of_char d :: int) \<le> 122"
  shows "canon c = canon d"
proof -
  let ?n = "of_char c :: int"
  have "?n mod 256 = ?n" by simp
  moreover have "0 \<le> ?n mod 256" "?n mod 256 < 256" by (rule pos_mod_sign, simp) (rule pos_mod_bound, simp)
  ultimately have rng: "0 \<le> ?n" "?n < 256" by simp_all
  consider "65 \<le> ?n \<and> ?n \<le> 90" | "192 \<le> ?n \<and> ?n \<le> 222 \<and> ?n \<noteq> 215"
    | "\<not> ((65 \<le> ?n \<and> ?n \<le> 90) \<or> (192 \<le> ?n \<and> ?n \<le> 222 \<and> ?n \<noteq> 215))"
    by blast
  then show ?thesis
  proof cases
    case 1
    then have d: "d = char_of (?n + 32)" using assms(1) by (simp add: toLowerChar_def Let_def)
    have od: "(of_char d :: int) = ?n + 32" using 1 by (simp add: d of_char_of)
    have "canon d = char_of (?n + 32 - 32)" using 1 by (simp add: canon_def Let_def od)
    then have "canon d = c" by simp
    moreover have "canon c = c" using 1 by (simp add: canon_def Let_def)
    ultimately show ?thesis by simp
  next
    case 2
    then have d: "d = char_of (?n + 32)" using assms(1) by (simp add: toLowerChar_def Let_def)
    have "(of_char d :: int) = ?n + 32" using 2 rng by (simp add: d of_char_of)
    with 2 assms(3) show ?thesis by simp
  next
    case 3
    then have "d = c" using assms(1) by (auto simp add: toLowerChar_def Let_def)
    then show ?thesis by simp
  qed
qed

lemma toLowerCase_literal_canon:
  assumes "toLowerCase oc = l" and "\<forall>d\<in>set l. 97 \<le> (of_char d :: int) \<and> (of_char d :: int) \<le> 122"
  shows "map canon oc = map canon l"
  using assms
proof (induction oc arbitrary: l)
  case Nil
  then show ?case by (simp add: toLowerCase_def)
next
  case (Cons c cs)
  then obtain d ds where l: "l = d # ds" and d: "toLowerChar c = d" and ds: "toLowerCase cs = ds"
    by (auto simp add: toLowerCase_def)
  from Cons.prems(2) l have "97 \<le> (of_char d :: int)" "(of_char d :: int) \<le> 122"
    and rest: "\<forall>d\<in>set ds. 97 \<le> (of_char d :: int) \<and> (of_char d :: int) \<le> 122"
    by simp_all
  with d have "canon c = canon d" by (intro of_char_toLower_cases)
  moreover have "map canon cs = map canon ds" using ds rest by (rule Cons.IH)
  ultimately show ?case by (simp add: l)
qed

lemma ciPrefix_self:
  "map canon oc = map canon l \<Longrightarrow> ciPrefix l (oc @ t)"
proof -
  assume a: "map canon oc = map canon l"
  then have "length oc = length l" by (rule map_eq_imp_length_eq)
  with a show ?thesis by (simp add: ciPrefix_def)
qed

lemma ciPrefix_hd:
  "ciPrefix (a # l) (b # s) \<Longrightarrow> canon a = canon b"
  by (auto simp add: ciPrefix_def)

lemma trim_dropWhile: "trim (dropWhile isSpace s) = trim s"
  by (simp add: trim_def)

lemma mtch_ws0:
  assumes "mtch r (dropWhile isSpace s) = Some (caps, rest)"
  shows "mtch (ws0 # r) s = Some (caps, rest)"
proof -
  have rm: "repMax isSpace None s = length (takeWhile isSpace s)"
    by (simp add: repMax_def)
  have "drop (length (takeWhile isSpace s)) s = dropWhile isSpace s"
    by (rule dropWhile_eq_drop [symmetric])
  with assms have e: "mtch r (drop (length (takeWhile isSpace s)) s) = Some (caps, rest)"
    by simp
  show ?thesis
    using mtch_Rep_take [OF rm _ e, of 0 False] by (simp add: ws0_def)
qed

lemma mtch_optional_char:
  assumes "mtch r t = Some (caps, rest)"
  shows "mtch ((False, Rep (\<lambda>c. c = x) 0 (Some 1)) # r) (x # t) = Some (caps, rest)"
proof -
  have rm: "repMax (\<lambda>c. c = x) (Some 1) (x # t) = 1"
    by (simp add: repMax_def)
  have e: "mtch r (drop 1 (x # t)) = Some (caps, rest)" using assms by simp
  show ?thesis
    using mtch_Rep_take [OF rm _ e, of 0 False] by simp
qed

lemma mtch_run:
  assumes "m \<noteq> []" and "\<And>x. x \<in> set m \<Longrightarrow> P x" and "t = [] \<or> \<not> P (hd t)"
    and "mtch r t = Some (caps, rest)"
  shows "mtch ((True, Rep P 1 None) # r) (m @ t) = Some (m # caps, rest)"
proof -
  have "takeWhile P t = []" using assms(3) by (cases t) auto
  then have "takeWhile P (m @ t) = m" by (simp add: takeWhile_append2 [OF assms(2)])
  then have rm: "repMax P None (m @ t) = length m" by (simp add: repMax_def)
  have len: "1 \<le> length m" using assms(1) by (cases m) simp_all
  have e: "mtch r (drop (length m) (m @ t)) = Some (caps, rest)" using assms(4) by simp
  show ?thesis
    using mtch_Rep_take [OF rm len e, of True] by simp
qed

lemma mtch_char:
  assumes "mtch r t = Some (caps, rest)"
  shows "mtch ((False, Lit [x]) # r) (x # t) = Some (caps, rest)"
  using assms by (simp add: ciPrefix_def withCap_def)

lemma mtchAlt_skip:
  "canon a \<noteq> canon b \<Longrightarrow> mtchAlt c r (a # s) ((b # l) # ls) = mtchAlt c r (a # s) ls"
  using ciPrefix_hd [of b l a s] by auto

lemma mtchAlt_hit:
  assumes "map canon oc = map canon l" and "mtch r t = Some (caps, rest)"
  shows "mtchAlt True r (oc @ t) (l # ls) = Some (oc # caps, rest)"
proof -
  have len: "length oc = length l" using assms(1) by (rule map_eq_imp_length_eq)
  have "ciPrefix l (oc @ t)" using assms(1) by (rule ciPrefix_self)
  moreover have "take (length l) (oc @ t) = oc" "drop (length l) (oc @ t) = t"
    using len by simp_all
  ultimately show ?thesis
    using assms(2) by (simp only: mtchAlt.simps if_True withCap_def option.case prod.case)
qed

lemma letter_not_space:
  assumes "canon a = canon b" and "65 \<le> (of_char b :: int)" and "(of_char b :: int) \<le> 122"
  shows "\<not> isSpace a"
proof
  assume sp: "isSpace a"
  then have "\<not> (97 \<le> (of_char a :: int) \<and> (of_char a :: int) \<le> 122)"
    by (auto simp add: isSpace_def Let_def)
  then have "canon a = a" by (auto simp add: canon_def Let_def)
  moreover have "(of_char (canon b) :: int) \<ge> 65 \<and> (of_char (canon b) :: int) \<le> 122"
    using assms(2,3) by (auto simp add: canon_def Let_def of_char_of)
  ultimately have "65 \<le> (of_char a :: int) \<and> (of_char a :: int) \<le> 122"
    using assms(1) by simp
  with sp show False by (auto simp add: isSpace_def Let_def)
qed

lemma mtch_outcome:
  assumes oc: "toLowerCase oc \<in> {''correct'', ''wrong'', ''partial'', ''skip''}"
    and r: "mtch r t = Some (caps, rest)"
  shows "mtch ((True, Alt [''correct'', ''wrong'', ''partial'', ''skip'']) # r) (oc @ t)
      = Some (oc # caps, rest) \<and> oc \<noteq> [] \<and> \<not> isSpace (hd oc)"
proof -
  from oc consider "toLowerCase oc = ''correct''" | "toLowerCase oc = ''wrong''"
    | "toLowerCase oc = ''partial''" | "toLowerCase oc = ''skip''"
    by auto
  then show ?thesis
  proof cases
    case 1
    then have c: "map canon oc = map canon ''correct''"
      by (rule toLowerCase_literal_canon) simp
    then obtain a oc' where o: "oc = a # oc'" and a: "canon a = canon CHR ''c''" by auto
    have "\<not> isSpace a" using a by (rule letter_not_space) simp_all
    moreover have "mtchAlt True r (oc @ t) [''correct'', ''wrong'', ''partial'', ''skip'']
        = Some (oc # caps, rest)"
      using c r by (rule mtchAlt_hit)
    ultimately show ?thesis by (simp add: o)
  next
    case 2
    then have c: "map canon oc = map canon ''wrong''"
      by (rule toLowerCase_literal_canon) simp
    then obtain a oc' where o: "oc = a # oc'" and a: "canon a = canon CHR ''w''" by auto
    have "\<not> isSpace a" using a by (rule letter_not_space) simp_all
    moreover have "mtchAlt True r (oc @ t) [''wrong'', ''partial'', ''skip'']
        = Some (oc # caps, rest)"
      using c r by (rule mtchAlt_hit)
    moreover have "mtchAlt True r (a # oc' @ t) [''correct'', ''wrong'', ''partial'', ''skip'']
        = mtchAlt True r (a # oc' @ t) [''wrong'', ''partial'', ''skip'']"
      by (rule mtchAlt_skip) (unfold a, simp add: canon_def)
    ultimately show ?thesis by (simp add: o)
  next
    case 3
    then have c: "map canon oc = map canon ''partial''"
      by (rule toLowerCase_literal_canon) simp
    then obtain a oc' where o: "oc = a # oc'" and a: "canon a = canon CHR ''p''" by auto
    have "\<not> isSpace a" using a by (rule letter_not_space) simp_all
    moreover have "mtchAlt True r (oc @ t) [''partial'', ''skip'']
        = Some (oc # caps, rest)"
      using c r by (rule mtchAlt_hit)
    moreover have "mtchAlt True r (a # oc' @ t) [''wrong'', ''partial'', ''skip'']
        = mtchAlt True r (a # oc' @ t) [''partial'', ''skip'']"
      by (rule mtchAlt_skip) (unfold a, simp add: canon_def)
    moreover have "mtchAlt True r (a # oc' @ t) [''correct'', ''wrong'', ''partial'', ''skip'']
        = mtchAlt True r (a # oc' @ t) [''wrong'', ''partial'', ''skip'']"
      by (rule mtchAlt_skip) (unfold a, simp add: canon_def)
    ultimately show ?thesis by (simp add: o)
  next
    case 4
    then have c: "map canon oc = map canon ''skip''"
      by (rule toLowerCase_literal_canon) simp
    then obtain a oc' where o: "oc = a # oc'" and a: "canon a = canon CHR ''s''" by auto
    have "\<not> isSpace a" using a by (rule letter_not_space) simp_all
    moreover have "mtchAlt True r (oc @ t) [''skip'']
        = Some (oc # caps, rest)"
      using c r by (rule mtchAlt_hit)
    moreover have "mtchAlt True r (a # oc' @ t) [''partial'', ''skip'']
        = mtchAlt True r (a # oc' @ t) [''skip'']"
      by (rule mtchAlt_skip) (unfold a, simp add: canon_def)
    moreover have "mtchAlt True r (a # oc' @ t) [''wrong'', ''partial'', ''skip'']
        = mtchAlt True r (a # oc' @ t) [''partial'', ''skip'']"
      by (rule mtchAlt_skip) (unfold a, simp add: canon_def)
    moreover have "mtchAlt True r (a # oc' @ t) [''correct'', ''wrong'', ''partial'', ''skip'']
        = mtchAlt True r (a # oc' @ t) [''wrong'', ''partial'', ''skip'']"
      by (rule mtchAlt_skip) (unfold a, simp add: canon_def)
    ultimately show ?thesis by (simp add: o)
  qed
qed

lemma mtch_reviewLine:
  assumes i: "i \<noteq> []" "\<forall>c\<in>set i. c \<noteq> CHR '']'' \<and> c \<noteq> CHR ''|''"
    and oc: "toLowerCase oc \<in> {''correct'', ''wrong'', ''partial'', ''skip''}"
    and n: "list_ex (\<lambda>c. \<not> isSpace c) nts" "list_all isDot nts"
  shows "mtch reviewFieldsRe (reviewLine i oc nts) = Some ([i, oc, dropWhile isSpace nts], [])"
proof -
  define n' where "n' = dropWhile isSpace nts"
  define R7 where "R7 = [(True, Rep isDot 1 None)]"
  define R5 where "R5 = (False, Lit ''|'') # ws0 # R7"
  define R3 where "R3 = (True, Alt [''correct'', ''wrong'', ''partial'', ''skip'']) # ws0 # R5"
  define R1 where "R1 = (False, Lit ''|'') # ws0 # R3"
  define R0 where "R0 = (False, Rep (\<lambda>c. c = CHR '']'') 0 (Some 1)) # ws0 # R1"
  define Rid where "Rid = (True, Rep (\<lambda>c. c \<noteq> CHR '']'' \<and> c \<noteq> CHR ''|'') 1 None) # R0"
  define Rbr where "Rbr = (False, Rep (\<lambda>c. c = CHR ''['') 0 (Some 1)) # Rid"
  define t6 where "t6 = CHR '' '' # nts"
  define t5 where "t5 = CHR ''|'' # t6"
  define t4 where "t4 = CHR '' '' # t5"
  define t3 where "t3 = oc @ t4"
  define t2 where "t2 = CHR ''|'' # CHR '' '' # t3"
  define t1 where "t1 = CHR '' '' # t2"
  define t0 where "t0 = CHR '']'' # t1"
  define tid where "tid = i @ t0"
  define tbr where "tbr = CHR ''['' # tid"
  have n'ne: "n' \<noteq> []" using n(1) by (auto simp add: n'_def list_ex_iff)
  have n'dot: "\<And>x. x \<in> set n' \<Longrightarrow> isDot x"
    using n(2) set_dropWhileD [of _ isSpace nts] by (auto simp add: n'_def list_all_iff)
  have s7: "mtch R7 n' = Some ([n'], [])"
    using mtch_run [where P = isDot and t = "[]" and r = "[]" and caps = "[]" and rest = "[]",
        OF n'ne n'dot]
    by (simp add: R7_def)
  have "dropWhile isSpace t6 = n'" by (simp add: t6_def n'_def isSpace_def)
  with s7 have s6: "mtch (ws0 # R7) t6 = Some ([n'], [])" by (intro mtch_ws0) simp
  have s5: "mtch R5 t5 = Some ([n'], [])"
    unfolding R5_def t5_def using s6 by (rule mtch_char)
  have "dropWhile isSpace t4 = t5" by (simp add: t4_def t5_def isSpace_def)
  with s5 have s4: "mtch (ws0 # R5) t4 = Some ([n'], [])" by (intro mtch_ws0) simp
  from mtch_outcome [OF oc s4]
  have s3: "mtch R3 t3 = Some ([oc, n'], [])" and one: "oc \<noteq> []" and ns: "\<not> isSpace (hd oc)"
    by (simp_all add: R3_def t3_def)
  have "dropWhile isSpace (CHR '' '' # t3) = t3"
    using one ns by (cases oc) (simp_all add: t3_def isSpace_def)
  with s3 have s3': "mtch (ws0 # R3) (CHR '' '' # t3) = Some ([oc, n'], [])"
    by (intro mtch_ws0) simp
  have s2: "mtch R1 t2 = Some ([oc, n'], [])"
    unfolding R1_def t2_def using s3' by (rule mtch_char)
  have "dropWhile isSpace t1 = t2" by (simp add: t1_def t2_def isSpace_def)
  with s2 have s1: "mtch (ws0 # R1) t1 = Some ([oc, n'], [])" by (intro mtch_ws0) simp
  have s0: "mtch R0 t0 = Some ([oc, n'], [])"
    unfolding R0_def t0_def using s1 by (rule mtch_optional_char)
  have iP: "\<And>x. x \<in> set i \<Longrightarrow> x \<noteq> CHR '']'' \<and> x \<noteq> CHR ''|''" using i(2) by simp
  have "t0 = [] \<or> \<not> (hd t0 \<noteq> CHR '']'' \<and> hd t0 \<noteq> CHR ''|'')" by (simp add: t0_def)
  from mtch_run [where P = "\<lambda>c. c \<noteq> CHR '']'' \<and> c \<noteq> CHR ''|''", OF i(1) iP this s0]
  have sid: "mtch Rid tid = Some ([i, oc, n'], [])" by (simp add: Rid_def tid_def)
  have sbr: "mtch Rbr tbr = Some ([i, oc, n'], [])"
    unfolding Rbr_def tbr_def using sid by (rule mtch_optional_char)
  have "dropWhile isSpace (CHR '' '' # tbr) = tbr" by (simp add: tbr_def isSpace_def)
  with sbr have sws: "mtch (ws0 # Rbr) (CHR '' '' # tbr) = Some ([i, oc, n'], [])"
    by (intro mtch_ws0) simp
  have line: "reviewLine i oc nts = ''REVIEW:'' @ CHR '' '' # tbr"
    by (simp add: reviewLine_def tbr_def tid_def t0_def t1_def t2_def t3_def t4_def t5_def t6_def)
  have re: "reviewFieldsRe = (False, Lit ''REVIEW:'') # ws0 # Rbr"
    by (simp add: reviewFieldsRe_def Rbr_def Rid_def R0_def R1_def R3_def R5_def R7_def)
  have kw: "ciPrefix ''REVIEW:'' (''REVIEW:'' @ CHR '' '' # tbr)"
    by (rule ciPrefix_self) simp
  have "drop 7 (''REVIEW:'' @ CHR '' '' # tbr) = CHR '' '' # tbr" by simp
  with sws have "mtch reviewFieldsRe (reviewLine i oc nts) = Some ([i, oc, n'], [])"
    unfolding line re by (simp only: mtch_keyword [OF kw])
  then show ?thesis by (simp add: n'_def)
qed

lemma parseLine_reviewLine:
  assumes i: "i \<noteq> []" "\<forall>c\<in>set i. c \<noteq> CHR '']'' \<and> c \<noteq> CHR ''|''"
    and oc: "toLowerCase oc \<in> {''correct'', ''wrong'', ''partial'', ''skip''}"
    and n: "list_ex (\<lambda>c. \<not> isSpace c) nts" "list_all isDot nts"
  shows "parseLine (reviewLine i oc nts) =
      (if toLowerCase oc = ''skip'' then None
       else Some \<lparr>upd_id = trim i, upd_outcome = toLowerCase oc, upd_notes = trim nts\<rparr>)"
proof -
  note m = mtch_reviewLine [OF assms]
  obtain x xs where l: "reviewLine i oc nts = x # xs" by (simp add: reviewLine_def)
  have "search reviewFieldsRe (reviewLine i oc nts)
      = Some [reviewLine i oc nts, i, oc, dropWhile isSpace nts]"
    using m unfolding l by simp
  then show ?thesis
    by (simp add: parseLine_def trim_dropWhile)
qed

section \<open>The nightly review: the pattern of the fields\<close>

lemma mtchRep_greedy:
  "withCap c (take k s) (mtch r (drop k s)) = Some m \<Longrightarrow> mtchRep c r s lo k = Some m"
  by (simp add: mtchRep.simps [of c r s lo k])

lemma mtchRep_all_fail:
  "lo \<le> k \<Longrightarrow> (\<And>j. lo \<le> j \<Longrightarrow> j \<le> k \<Longrightarrow> mtch r (drop j s) = None) \<Longrightarrow>
   mtchRep c r s lo k = None"
proof (induction k)
  case 0
  then have "mtch r (drop 0 s) = None" by blast
  then show ?case by (simp add: mtchRep.simps [of c r s lo 0] withCap_def)
next
  case (Suc k)
  have here: "mtch r (drop (Suc k) s) = None" using Suc.prems by blast
  show ?case
  proof (cases "lo < Suc k")
    case True
    then have "lo \<le> k" by simp
    moreover have "\<And>j. lo \<le> j \<Longrightarrow> j \<le> k \<Longrightarrow> mtch r (drop j s) = None"
      using Suc.prems(2) by simp
    ultimately have "mtchRep c r s lo k = None" by (rule Suc.IH)
    with here True show ?thesis
      by (simp add: mtchRep.simps [of c r s lo "Suc k"] withCap_def)
  next
    case False
    with here show ?thesis
      by (simp add: mtchRep.simps [of c r s lo "Suc k"] withCap_def)
  qed
qed

lemma mtchRep_some:
  "lo \<le> k \<Longrightarrow> mtchRep c r s lo k = Some m \<Longrightarrow>
   \<exists>j. lo \<le> j \<and> j \<le> k \<and> withCap c (take j s) (mtch r (drop j s)) = Some m"
proof (induction k)
  case 0
  then have lo: "lo = 0" by simp
  from 0(2) have "withCap c (take 0 s) (mtch r (drop 0 s)) = Some m"
    unfolding lo by (simp add: mtchRep.simps [of c r s 0 0] split: option.splits)
  then show ?case unfolding lo by blast
next
  case (Suc k)
  show ?case
  proof (cases "withCap c (take (Suc k) s) (mtch r (drop (Suc k) s))")
    case (Some a)
    with Suc.prems have "a = m" by (simp add: mtchRep.simps [of c r s lo "Suc k"])
    with Some Suc.prems(1) show ?thesis by blast
  next
    case None
    with Suc.prems have lt: "lo < Suc k" and rec: "mtchRep c r s lo k = Some m"
      by (simp_all add: mtchRep.simps [of c r s lo "Suc k"] split: if_splits)
    from lt have "lo \<le> k" by simp
    from Suc.IH [OF this rec] obtain j
      where "lo \<le> j" "j \<le> k" "withCap c (take j s) (mtch r (drop j s)) = Some m"
      by blast
    then show ?thesis by (intro exI [of _ j]) simp
  qed
qed

lemma mtch_Rep:
  "mtch ((c, Rep P lo hi) # r) s =
     (if lo \<le> repMax P hi s then mtchRep c r s lo (repMax P hi s) else None)"
  by simp

lemma withCap_False: "withCap False m r = r"
  by (cases r) (auto simp add: withCap_def)

lemma withCap_None: "withCap c m None = None"
  by (simp add: withCap_def)

lemma withCap_eq_None: "withCap c m r = None \<longleftrightarrow> r = None"
  by (cases r) (auto simp add: withCap_def)

lemma drop_takeWhile: "drop (length (takeWhile P s)) s = dropWhile P s"
  by (rule dropWhile_eq_drop [symmetric])

text \<open>White space before an item that cannot start with white space is skipped
  whole.\<close>

lemma mtch_ws0_strict:
  assumes "\<And>t. t \<noteq> [] \<Longrightarrow> isSpace (hd t) \<Longrightarrow> mtch r t = None"
  shows "mtch (ws0 # r) s = mtch r (dropWhile isSpace s)"
proof -
  let ?k = "length (takeWhile isSpace s)"
  have rm: "repMax isSpace None s = ?k" by (simp add: repMax_def)
  have m: "mtch (ws0 # r) s = mtchRep False r s 0 ?k"
    unfolding ws0_def mtch_Rep rm by simp
  show ?thesis
  proof (cases "mtch r (dropWhile isSpace s)")
    case (Some a)
    then have "withCap False (take ?k s) (mtch r (drop ?k s)) = Some a"
      by (simp add: withCap_False drop_takeWhile)
    then have "mtchRep False r s 0 ?k = Some a" by (rule mtchRep_greedy)
    with m Some show ?thesis by simp
  next
    case None
    have "mtchRep False r s 0 ?k = None"
    proof (rule mtchRep_all_fail)
      show "0 \<le> ?k" by simp
    next
      fix j assume "0 \<le> j" and j: "j \<le> ?k"
      show "mtch r (drop j s) = None"
      proof (cases "j = ?k")
        case True
        with None show ?thesis by (simp add: drop_takeWhile)
      next
        case False
        with j have lt: "j < ?k" by simp
        then have js: "j < length s"
          using length_takeWhile_le [of isSpace s] by simp
        have "takeWhile isSpace s ! j \<in> set (takeWhile isSpace s)"
          using lt by (rule nth_mem)
        then have "isSpace (takeWhile isSpace s ! j)" by (rule set_takeWhileD [THEN conjunct2])
        moreover have "takeWhile isSpace s ! j = s ! j" using lt by (rule takeWhile_nth)
        ultimately have "isSpace (hd (drop j s))" using js by (simp add: hd_drop_conv_nth)
        moreover have "drop j s \<noteq> []" using js by simp
        ultimately show ?thesis by (intro assms)
      qed
    qed
    with m None show ?thesis by simp
  qed
qed

lemma canon_bar: "canon c = CHR ''|'' \<longleftrightarrow> c = CHR ''|''"
proof (cases "97 \<le> (of_char c :: int) \<and> (of_char c :: int) \<le> 122")
  case True
  then have "canon c = char_of ((of_char c :: int) - 32)" by (simp add: canon_def Let_def)
  then have "(of_char (canon c) :: int) = of_char c - 32" using True by (simp add: of_char_of)
  then have "canon c \<noteq> CHR ''|''" using True by auto
  moreover have "c \<noteq> CHR ''|''" using True by auto
  ultimately show ?thesis by simp
next
  case False
  then have "canon c = c" by (auto simp add: canon_def Let_def)
  then show ?thesis by simp
qed

lemma mtch_bar:
  "mtch ((False, Lit ''|'') # r) s =
     (case s of [] \<Rightarrow> None | c # t \<Rightarrow> if c = CHR ''|'' then mtch r t else None)"
proof (cases s)
  case Nil
  then show ?thesis by (simp add: ciPrefix_def)
next
  case (Cons c t)
  have h: "canon CHR ''|'' = CHR ''|''" by (simp add: canon_def)
  have "ciPrefix ''|'' (c # t) \<longleftrightarrow> c = CHR ''|''"
    by (simp add: ciPrefix_def h canon_bar)
  then show ?thesis by (simp add: Cons withCap_False)
qed

lemma bar_not_space: "\<not> isSpace (CHR ''|'')"
  by (simp add: isSpace_def)

lemma mtch_skipBar:
  "mtch (ws0 # (False, Lit ''|'') # r) s =
     (case skipBar s of None \<Rightarrow> None | Some t \<Rightarrow> mtch r t)"
proof -
  have eq: "mtch (ws0 # (False, Lit ''|'') # r) s =
      mtch ((False, Lit ''|'') # r) (dropWhile isSpace s)"
  proof (rule mtch_ws0_strict)
    fix t :: string assume "t \<noteq> []" and "isSpace (hd t)"
    then show "mtch ((False, Lit ''|'') # r) t = None"
      unfolding mtch_bar using bar_not_space by (cases t) auto
  qed
  have "\<And>d. (case d of [] \<Rightarrow> None | c # t \<Rightarrow> if c = CHR ''|'' then mtch r t else None) =
      (case (case d of [] \<Rightarrow> None | c # t \<Rightarrow> if c = CHR ''|'' then Some t else None) of
         None \<Rightarrow> None | Some t \<Rightarrow> mtch r t)"
    by (simp split: list.splits)
  then show ?thesis
    unfolding eq mtch_bar skipBar_def .
qed

lemma ciPrefix_Cons_Nil: "\<not> ciPrefix (a # l) []"
  by (simp add: ciPrefix_def)

lemma ciPrefix_letter:
  assumes "ciPrefix (b # l) t" and "65 \<le> (of_char b :: int)" and "(of_char b :: int) \<le> 122"
  shows "t \<noteq> [] \<and> \<not> isSpace (hd t) \<and> canon (hd t) = canon b"
proof (cases t)
  case Nil
  with assms(1) show ?thesis by (simp add: ciPrefix_Cons_Nil)
next
  case (Cons a t')
  with assms(1) have "canon b = canon a" by (simp add: ciPrefix_hd)
  then have c: "canon a = canon b" by simp
  then have "\<not> isSpace a" using assms(2,3) by (rule letter_not_space)
  with c Cons show ?thesis by simp
qed

lemma canon_initials:
  "canon CHR ''c'' \<noteq> canon CHR ''w''" "canon CHR ''c'' \<noteq> canon CHR ''p''"
  "canon CHR ''c'' \<noteq> canon CHR ''s''" "canon CHR ''w'' \<noteq> canon CHR ''p''"
  "canon CHR ''w'' \<noteq> canon CHR ''s''" "canon CHR ''p'' \<noteq> canon CHR ''s''"
  by (simp_all add: canon_def)

lemma outcome_exclusive:
  "ciPrefix ''correct'' t \<Longrightarrow> \<not> ciPrefix ''wrong'' t \<and> \<not> ciPrefix ''partial'' t \<and> \<not> ciPrefix ''skip'' t"
  "ciPrefix ''wrong'' t \<Longrightarrow> \<not> ciPrefix ''correct'' t \<and> \<not> ciPrefix ''partial'' t \<and> \<not> ciPrefix ''skip'' t"
  "ciPrefix ''partial'' t \<Longrightarrow> \<not> ciPrefix ''correct'' t \<and> \<not> ciPrefix ''wrong'' t \<and> \<not> ciPrefix ''skip'' t"
  "ciPrefix ''skip'' t \<Longrightarrow> \<not> ciPrefix ''correct'' t \<and> \<not> ciPrefix ''wrong'' t \<and> \<not> ciPrefix ''partial'' t"
proof -
  have c: "ciPrefix ''correct'' t \<Longrightarrow> canon (hd t) = canon CHR ''c''"
    and w: "ciPrefix ''wrong'' t \<Longrightarrow> canon (hd t) = canon CHR ''w''"
    and p: "ciPrefix ''partial'' t \<Longrightarrow> canon (hd t) = canon CHR ''p''"
    and s: "ciPrefix ''skip'' t \<Longrightarrow> canon (hd t) = canon CHR ''s''"
    using ciPrefix_letter [of _ _ t] by simp_all
  show "ciPrefix ''correct'' t \<Longrightarrow> \<not> ciPrefix ''wrong'' t \<and> \<not> ciPrefix ''partial'' t \<and> \<not> ciPrefix ''skip'' t"
    using c w p s canon_initials by metis
  show "ciPrefix ''wrong'' t \<Longrightarrow> \<not> ciPrefix ''correct'' t \<and> \<not> ciPrefix ''partial'' t \<and> \<not> ciPrefix ''skip'' t"
    using c w p s canon_initials by metis
  show "ciPrefix ''partial'' t \<Longrightarrow> \<not> ciPrefix ''correct'' t \<and> \<not> ciPrefix ''wrong'' t \<and> \<not> ciPrefix ''skip'' t"
    using c w p s canon_initials by metis
  show "ciPrefix ''skip'' t \<Longrightarrow> \<not> ciPrefix ''correct'' t \<and> \<not> ciPrefix ''wrong'' t \<and> \<not> ciPrefix ''partial'' t"
    using c w p s canon_initials by metis
qed

lemma mtchAlt_outcomes:
  "mtchAlt True r t outcomeWords =
     (case List.find (\<lambda>l. ciPrefix l t) outcomeWords of
        None \<Rightarrow> None
      | Some l \<Rightarrow> withCap True (take (length l) t) (mtch r (drop (length l) t)))"
proof -
  consider "ciPrefix ''correct'' t" | "ciPrefix ''wrong'' t" | "ciPrefix ''partial'' t"
    | "ciPrefix ''skip'' t"
    | "\<not> ciPrefix ''correct'' t \<and> \<not> ciPrefix ''wrong'' t \<and> \<not> ciPrefix ''partial'' t
       \<and> \<not> ciPrefix ''skip'' t"
    by blast
  then show ?thesis
  proof cases
    case 1
    with outcome_exclusive(1) [OF 1] show ?thesis
      by (simp add: outcomeWords_def split: option.splits)
  next
    case 2
    with outcome_exclusive(2) [OF 2] show ?thesis
      by (simp add: outcomeWords_def split: option.splits)
  next
    case 3
    with outcome_exclusive(3) [OF 3] show ?thesis
      by (simp add: outcomeWords_def split: option.splits)
  next
    case 4
    with outcome_exclusive(4) [OF 4] show ?thesis
      by (simp add: outcomeWords_def split: option.splits)
  next
    case 5
    then show ?thesis by (simp add: outcomeWords_def)
  qed
qed

lemma find_outcome_letter:
  assumes "List.find (\<lambda>l. ciPrefix l t) outcomeWords = Some l"
  shows "t \<noteq> [] \<and> \<not> isSpace (hd t)"
proof -
  from assms have "ciPrefix l t" and "l \<in> set outcomeWords"
    by (auto simp add: find_Some_iff)
  then consider "ciPrefix ''correct'' t" | "ciPrefix ''wrong'' t" | "ciPrefix ''partial'' t"
    | "ciPrefix ''skip'' t"
    by (auto simp add: outcomeWords_def)
  then show ?thesis
    using ciPrefix_letter [of _ _ t] by cases simp_all
qed

lemma mtch_outcomeField:
  "mtch (ws0 # (True, Alt outcomeWords) # r) s =
     (case outcomeField s of None \<Rightarrow> None | Some (oc, t) \<Rightarrow> withCap True oc (mtch r t))"
proof -
  have eq: "mtch (ws0 # (True, Alt outcomeWords) # r) s =
      mtch ((True, Alt outcomeWords) # r) (dropWhile isSpace s)"
  proof (rule mtch_ws0_strict)
    fix t :: string assume t: "t \<noteq> []" "isSpace (hd t)"
    have "List.find (\<lambda>l. ciPrefix l t) outcomeWords = None"
    proof (cases "List.find (\<lambda>l. ciPrefix l t) outcomeWords")
      case (Some l)
      from find_outcome_letter [OF Some] t show ?thesis by simp
    qed simp
    then show "mtch ((True, Alt outcomeWords) # r) t = None"
      by (simp add: mtchAlt_outcomes)
  qed
  show ?thesis
    unfolding eq by (simp add: mtchAlt_outcomes outcomeField_def Let_def split: option.splits)
qed

lemma mtchRep_None_all:
  "lo \<le> k \<Longrightarrow> mtchRep c r s lo k = None \<Longrightarrow> lo \<le> j \<Longrightarrow> j \<le> k \<Longrightarrow>
   mtch r (drop j s) = None"
proof (induction k)
  case 0
  then have "lo = 0" "j = 0" by simp_all
  with 0(2) show ?case
    by (simp add: mtchRep.simps [of c r s 0 0] withCap_eq_None split: option.splits)
next
  case (Suc k)
  from Suc.prems(2) have here: "mtch r (drop (Suc k) s) = None"
    by (simp add: mtchRep.simps [of c r s lo "Suc k"] withCap_eq_None split: option.splits)
  show ?case
  proof (cases "j = Suc k")
    case True
    with here show ?thesis by simp
  next
    case False
    with Suc.prems have jk: "j \<le> k" and lt: "lo < Suc k" by simp_all
    from Suc.prems(2) lt here have "mtchRep c r s lo k = None"
      by (simp add: mtchRep.simps [of c r s lo "Suc k"] withCap_None)
    moreover have "lo \<le> k" using lt by simp
    ultimately show ?thesis using Suc.prems(3) jk by (intro Suc.IH)
  qed
qed

lemma not_space_isDot: "\<not> isSpace c \<Longrightarrow> isDot c"
  by (auto simp add: isSpace_def isDot_def Let_def)

lemma trim_all_space:
  assumes "\<And>c. c \<in> set m \<Longrightarrow> isSpace c"
  shows "trim m = []"
proof -
  have h: "dropWhile isSpace m = []" using assms by simp
  show ?thesis unfolding trim_def h by simp
qed

lemma mtch_dots:
  "mtch [(True, Rep isDot 1 None)] t =
     (if takeWhile isDot t = [] then None
      else Some ([takeWhile isDot t], dropWhile isDot t))"
proof -
  let ?k = "length (takeWhile isDot t)"
  have rm: "repMax isDot None t = ?k" by (simp add: repMax_def)
  show ?thesis
  proof (cases "takeWhile isDot t = []")
    case True
    then show ?thesis unfolding mtch_Rep rm by simp
  next
    case False
    then have k: "1 \<le> ?k" by (cases "takeWhile isDot t") simp_all
    have "withCap True (take ?k t) (mtch [] (drop ?k t))
        = Some ([takeWhile isDot t], dropWhile isDot t)"
      by (simp add: withCap_def drop_takeWhile takeWhile_eq_take [symmetric])
    then have "mtchRep True [] t 1 ?k = Some ([takeWhile isDot t], dropWhile isDot t)"
      by (rule mtchRep_greedy)
    with k False show ?thesis unfolding mtch_Rep rm by simp
  qed
qed

lemma mtch_notesField:
  "case notesField s of
     None \<Rightarrow> mtch [ws0, (True, Rep isDot 1 None)] s = None
   | Some n \<Rightarrow> \<exists>m rest. mtch [ws0, (True, Rep isDot 1 None)] s = Some ([m], rest)
       \<and> trim m = trim n"
proof -
  let ?R = "[(True, Rep isDot 1 None)]"
  let ?k = "length (takeWhile isSpace s)"
  let ?d = "dropWhile isSpace s"
  have rm: "repMax isSpace None s = ?k" by (simp add: repMax_def)
  have m: "mtch [ws0, (True, Rep isDot 1 None)] s = mtchRep False ?R s 0 ?k"
    unfolding ws0_def mtch_Rep rm by simp
  show ?thesis
  proof (cases "?d = []")
    case False
    then have "\<not> isSpace (hd ?d)" by (rule hd_dropWhile)
    then have "isDot (hd ?d)" by (rule not_space_isDot)
    with False have ne: "takeWhile isDot ?d \<noteq> []" by (cases ?d) simp_all
    then have "withCap False (take ?k s) (mtch ?R (drop ?k s))
        = Some ([takeWhile isDot ?d], dropWhile isDot ?d)"
      unfolding withCap_False drop_takeWhile mtch_dots by simp
    then have "mtchRep False ?R s 0 ?k = Some ([takeWhile isDot ?d], dropWhile isDot ?d)"
      by (rule mtchRep_greedy)
    with m ne show ?thesis by (simp add: notesField_def Let_def)
  next
    case dnil: True
    then have sp: "\<And>c. c \<in> set s \<Longrightarrow> isSpace c" by simp
    from dnil have ks: "?k = length s" by (simp add: takeWhile_eq_all_conv [THEN iffD2])
    show ?thesis
    proof (cases "list_ex isDot s")
      case False
      have "mtchRep False ?R s 0 ?k = None"
      proof (rule mtchRep_all_fail)
        show "0 \<le> ?k" by simp
      next
        fix j assume "0 \<le> j" "j \<le> ?k"
        have "takeWhile isDot (drop j s) = []"
        proof (cases "drop j s")
          case (Cons a as)
          then have "a \<in> set s" using in_set_dropD [of a j s] by simp
          with False have "\<not> isDot a" by (auto simp add: list_ex_iff)
          with Cons show ?thesis by simp
        qed simp
        then show "mtch ?R (drop j s) = None" unfolding mtch_dots by simp
      qed
      with m False show ?thesis by (simp add: notesField_def Let_def dnil)
    next
      case ex: True
      then obtain j where j: "j < length s" and dj: "isDot (s ! j)"
        by (auto simp add: list_ex_iff in_set_conv_nth)
      have "mtchRep False ?R s 0 ?k \<noteq> None"
      proof
        assume none: "mtchRep False ?R s 0 ?k = None"
        have "mtch ?R (drop j s) = None"
          using j ks by (intro mtchRep_None_all [OF _ none]) simp_all
        moreover have "mtch ?R (drop j s) \<noteq> None"
          unfolding mtch_dots using j dj by (simp add: Cons_nth_drop_Suc [symmetric])
        ultimately show False by simp
      qed
      then obtain res where res: "mtchRep False ?R s 0 ?k = Some res" by auto
      from mtchRep_some [OF _ res] obtain i
        where "withCap False (take i s) (mtch ?R (drop i s)) = Some res" by auto
      then have r: "mtch ?R (drop i s) = Some res" by (simp add: withCap_False)
      then have ne: "takeWhile isDot (drop i s) \<noteq> []"
        and val: "res = ([takeWhile isDot (drop i s)], dropWhile isDot (drop i s))"
        unfolding mtch_dots by (auto split: if_splits)
      have "\<And>c. c \<in> set (takeWhile isDot (drop i s)) \<Longrightarrow> isSpace c"
        using sp set_takeWhileD in_set_dropD by metis
      then have "trim (takeWhile isDot (drop i s)) = []" by (rule trim_all_space)
      with m res val ex show ?thesis
        by (simp add: notesField_def Let_def trim_def dnil)
    qed
  qed
qed

lemma mtchRep_0: "mtchRep False r s 0 0 = mtch r s"
  by (cases "mtch r s") (simp_all add: mtchRep.simps [of False r s 0 0] withCap_False)

lemma mtchRep_1:
  "mtchRep False r s 0 1 = (case mtch r (drop 1 s) of Some m \<Rightarrow> Some m | None \<Rightarrow> mtch r s)"
proof -
  have "mtchRep False r s 0 (Suc 0) =
      (case mtch r (drop (Suc 0) s) of Some m \<Rightarrow> Some m | None \<Rightarrow> mtch r s)"
    by (subst mtchRep.simps) (simp add: withCap_False mtchRep_0 split: option.splits)
  then show ?thesis by simp
qed

lemma mtch_optional:
  "mtch ((False, Rep (\<lambda>c. c = x) 0 (Some 1)) # r) s =
     (if s \<noteq> [] \<and> hd s = x
      then (case mtch r (tl s) of Some m \<Rightarrow> Some m | None \<Rightarrow> mtch r s)
      else mtch r s)"
proof (cases "s \<noteq> [] \<and> hd s = x")
  case True
  then obtain t where s: "s = x # t" by (cases s) auto
  have rm: "repMax (\<lambda>c. c = x) (Some 1) s = 1" by (simp add: repMax_def s)
  show ?thesis unfolding mtch_Rep rm mtchRep_1 by (simp add: s)
next
  case False
  then have "takeWhile (\<lambda>c. c = x) s = []" by (cases s) auto
  then have rm: "repMax (\<lambda>c. c = x) (Some 1) s = 0" by (simp add: repMax_def)
  show ?thesis unfolding mtch_Rep rm mtchRep_0 if_not_P [OF False] by simp
qed

lemma skipBar_bracket: "skipBar (CHR '']'' # t) = None"
  by (simp add: skipBar_def isSpace_def)

lemma mtch_close:
  "mtch ((False, Rep (\<lambda>c. c = CHR '']'') 0 (Some 1)) # ws0 # (False, Lit ''|'') # r) s =
     (case skipBar (afterId s) of None \<Rightarrow> None | Some t \<Rightarrow> mtch r t)"
proof (cases s)
  case Nil
  show ?thesis
    unfolding mtch_optional mtch_skipBar by (simp add: Nil afterId_def)
next
  case (Cons c t)
  show ?thesis
  proof (cases "c = CHR '']''")
    case True
    show ?thesis
      unfolding mtch_optional mtch_skipBar
      by (simp add: Cons True afterId_def skipBar_bracket split: option.splits)
  next
    case False
    then show ?thesis
      unfolding mtch_optional mtch_skipBar by (simp add: Cons afterId_def)
  qed
qed

lemma space_idChar: "isSpace c \<Longrightarrow> idChar c"
  by (auto simp add: isSpace_def idChar_def)

lemma idChar_cases: "\<not> idChar c \<Longrightarrow> \<not> isSpace c"
  using space_idChar by blast

lemma skipBar_after_run:
  assumes v: "\<And>c. c \<in> set v \<Longrightarrow> idChar c"
    and y: "y = [] \<or> \<not> idChar (hd y)"
    and sb: "skipBar (v @ y) = Some t"
  shows "skipBar (afterId y) = Some t"
proof -
  from sb have d: "dropWhile isSpace (v @ y) = CHR ''|'' # t"
    by (auto simp add: skipBar_def split: list.splits if_splits)
  have allsp: "\<forall>c\<in>set v. isSpace c"
  proof (rule ccontr)
    assume "\<not> (\<forall>c\<in>set v. isSpace c)"
    then obtain x where x: "x \<in> set v" "\<not> isSpace x" by blast
    then have ne: "dropWhile isSpace v \<noteq> []" by auto
    have "dropWhile isSpace (v @ y) = dropWhile isSpace v @ y"
      using x by (rule dropWhile_append1)
    with d have "hd (dropWhile isSpace v) = CHR ''|''" using ne
      by (cases "dropWhile isSpace v") simp_all
    moreover have "hd (dropWhile isSpace v) \<in> set v"
      using ne set_dropWhileD [of _ isSpace v] hd_in_set by blast
    ultimately show False using v by (auto simp add: idChar_def)
  qed
  then have "dropWhile isSpace (v @ y) = dropWhile isSpace y" by simp
  with d have dy: "dropWhile isSpace y = CHR ''|'' # t" by simp
  then have yne: "y \<noteq> []" by auto
  with y have "\<not> isSpace (hd y)" by (auto dest: idChar_cases)
  with yne have "dropWhile isSpace y = y" by (cases y) simp_all
  with dy have "y = CHR ''|'' # t" by simp
  then show ?thesis by (simp add: afterId_def skipBar_def isSpace_def)
qed

lemma takeWhile_idChar_split:
  "s = takeWhile idChar s @ drop (length (takeWhile idChar s)) s"
  by (simp add: drop_takeWhile)

lemma after_run_shape:
  "drop (length (takeWhile idChar s)) s = [] \<or>
   \<not> idChar (hd (drop (length (takeWhile idChar s)) s))"
proof (cases "dropWhile idChar s = []")
  case True
  then show ?thesis unfolding drop_takeWhile by (rule disjI1)
next
  case False
  then have "\<not> idChar (hd (dropWhile idChar s))" by (rule hd_dropWhile)
  then show ?thesis unfolding drop_takeWhile by (rule disjI2)
qed

lemma mtch_idRun:
  fixes r :: regex
  defines "R0 \<equiv> (False, Rep (\<lambda>c. c = CHR '']'') 0 (Some 1)) # ws0 # (False, Lit ''|'') # r"
  shows "mtch ((True, Rep idChar 1 None) # R0) s =
     (if takeWhile idChar s = [] then None
      else withCap True (takeWhile idChar s) (mtch R0 (drop (length (takeWhile idChar s)) s)))"
proof -
  let ?u = "takeWhile idChar s"
  let ?k = "length ?u"
  let ?y = "drop ?k s"
  have rm: "repMax idChar None s = ?k" by (simp add: repMax_def)
  have R0: "\<And>x. mtch R0 x = (case skipBar (afterId x) of None \<Rightarrow> None | Some t \<Rightarrow> mtch r t)"
    unfolding R0_def by (rule mtch_close)
  show ?thesis
  proof (cases "?u = []")
    case True
    then show ?thesis unfolding mtch_Rep rm by simp
  next
    case False
    then have k1: "1 \<le> ?k" by (cases ?u) simp_all
    have tk: "take ?k s = ?u" by (simp add: takeWhile_eq_take [symmetric])
    show ?thesis
    proof (cases "mtch R0 ?y")
      case (Some a)
      then have "withCap True (take ?k s) (mtch R0 (drop ?k s)) = Some (?u # fst a, snd a)"
        by (simp add: withCap_def tk split: prod.splits)
      then have "mtchRep True R0 s 1 ?k = Some (?u # fst a, snd a)" by (rule mtchRep_greedy)
      with False k1 Some show ?thesis
        unfolding mtch_Rep rm by (simp add: withCap_def split: prod.splits)
    next
      case None
      have "mtchRep True R0 s 1 ?k = None"
      proof (rule mtchRep_all_fail [OF k1])
        fix j assume j1: "1 \<le> j" and jk: "j \<le> ?k"
        show "mtch R0 (drop j s) = None"
        proof (cases "j = ?k")
          case True
          with None show ?thesis by simp
        next
          case False
          with jk have lt: "j < ?k" by simp
          define v where "v = drop j ?u"
          have vne: "v \<noteq> []" using lt by (simp add: v_def)
          have vid: "\<And>c. c \<in> set v \<Longrightarrow> idChar c"
            unfolding v_def using set_takeWhileD [of _ idChar s] in_set_dropD by metis
          have "drop j s = drop j (?u @ ?y)" using takeWhile_idChar_split [of s] by simp
          then have dj: "drop j s = v @ ?y" using lt by (simp add: v_def)
          have "idChar (hd v)" using vne vid by simp
          then have "hd v \<noteq> CHR '']''" by (auto simp add: idChar_def)
          then have aid: "afterId (v @ ?y) = v @ ?y" using vne by (cases v) (simp_all add: afterId_def)
          show ?thesis
          proof (cases "skipBar (v @ ?y)")
            case sbNone: None
            then show ?thesis unfolding R0 dj aid by simp
          next
            case (Some t)
            from skipBar_after_run [OF vid after_run_shape Some]
            have "skipBar (afterId ?y) = Some t" .
            with None have "mtch r t = None" unfolding R0 by simp
            with Some show ?thesis unfolding R0 dj aid by simp
          qed
        qed
      qed
      with False k1 None show ?thesis
        unfolding mtch_Rep rm by (simp add: withCap_None)
    qed
  qed
qed

lemma dropOpen_hd_tl:
  "dropOpen v = (if hd v = CHR ''['' \<and> tl v \<noteq> [] then tl v else v)"
  by (cases v rule: dropOpen.cases) auto

lemma dropOpen_subset: "set (dropOpen v) \<subseteq> set v"
  by (cases v) (auto simp add: dropOpen_hd_tl)

lemma idChar_open: "idChar (CHR ''['')"
  by (simp add: idChar_def)

lemma mtch_open:
  fixes r :: regex
  defines "R0 \<equiv> (False, Rep (\<lambda>c. c = CHR '']'') 0 (Some 1)) # ws0 # (False, Lit ''|'') # r"
  shows "mtch ((False, Rep (\<lambda>c. c = CHR ''['') 0 (Some 1)) # (True, Rep idChar 1 None) # R0) s =
     (if takeWhile idChar s = [] then None
      else withCap True (dropOpen (takeWhile idChar s))
             (mtch R0 (drop (length (takeWhile idChar s)) s)))"
proof -
  let ?Rid = "(True, Rep idChar 1 None) # R0"
  have run: "\<And>x. mtch ?Rid x =
     (if takeWhile idChar x = [] then None
      else withCap True (takeWhile idChar x) (mtch R0 (drop (length (takeWhile idChar x)) x)))"
    unfolding R0_def by (rule mtch_idRun)
  show ?thesis
  proof (cases "s \<noteq> [] \<and> hd s = CHR ''[''")
    case True
    then obtain t where s: "s = CHR ''['' # t" by (cases s) auto
    let ?u1 = "takeWhile idChar t"
    have u: "takeWhile idChar s = CHR ''['' # ?u1" by (simp add: s idChar_open)
    have y: "drop (length (takeWhile idChar s)) s = drop (length ?u1) t" by (simp add: u) (simp add: s)
    have m: "mtch ((False, Rep (\<lambda>c. c = CHR ''['') 0 (Some 1)) # ?Rid) s =
        (case mtch ?Rid t of Some m \<Rightarrow> Some m | None \<Rightarrow> mtch ?Rid s)"
      unfolding mtch_optional by (simp add: s del: mtch.simps)
    note rs = run [of s, unfolded y]
    have runS: "mtch ?Rid s = withCap True (CHR ''['' # ?u1) (mtch R0 (drop (length ?u1) t))"
      using rs [unfolded u] by (simp del: mtch.simps)
    note runT = run [of t]
    show ?thesis
    proof (cases "?u1 = []")
      case True
      have "mtch ?Rid t = None" using runT True by (simp del: mtch.simps)
      then have "mtch ((False, Rep (\<lambda>c. c = CHR ''['') 0 (Some 1)) # ?Rid) s =
          withCap True (CHR ''['' # ?u1) (mtch R0 (drop (length ?u1) t))"
        unfolding m runS by simp
      moreover have "dropOpen (CHR ''['' # ?u1) = CHR ''['' # ?u1" using True by (simp add: dropOpen_hd_tl)
      ultimately have "mtch ((False, Rep (\<lambda>c. c = CHR ''['') 0 (Some 1)) # ?Rid) s =
          withCap True (dropOpen (CHR ''['' # ?u1)) (mtch R0 (drop (length ?u1) t))"
        by simp
      then show ?thesis unfolding y unfolding u by (simp del: mtch.simps)
    next
      case False
      have rt: "mtch ?Rid t = withCap True ?u1 (mtch R0 (drop (length ?u1) t))"
        using runT False by (simp del: mtch.simps)
      have "mtch ((False, Rep (\<lambda>c. c = CHR ''['') 0 (Some 1)) # ?Rid) s =
          withCap True ?u1 (mtch R0 (drop (length ?u1) t))"
        unfolding m runS rt
        by (cases "mtch R0 (drop (length ?u1) t)")
          (simp_all add: withCap_def split: prod.splits)
      moreover have "dropOpen (CHR ''['' # ?u1) = ?u1" using False by (simp add: dropOpen_hd_tl)
      ultimately have "mtch ((False, Rep (\<lambda>c. c = CHR ''['') 0 (Some 1)) # ?Rid) s =
          withCap True (dropOpen (CHR ''['' # ?u1)) (mtch R0 (drop (length ?u1) t))"
        by simp
      then show ?thesis unfolding y unfolding u by (simp del: mtch.simps)
    qed
  next
    case False
    have m: "mtch ((False, Rep (\<lambda>c. c = CHR ''['') 0 (Some 1)) # ?Rid) s = mtch ?Rid s"
      unfolding mtch_optional if_not_P [OF False] ..
    have "takeWhile idChar s \<noteq> [] \<Longrightarrow> dropOpen (takeWhile idChar s) = takeWhile idChar s"
    proof -
      assume ne: "takeWhile idChar s \<noteq> []"
      then have "hd (takeWhile idChar s) = hd s" by (cases s) (auto split: if_splits)
      moreover have "s \<noteq> []" using ne by auto
      ultimately have "hd (takeWhile idChar s) \<noteq> CHR ''[''" using False by simp
      then show ?thesis by (simp add: dropOpen_hd_tl)
    qed
    then show ?thesis unfolding m run by simp
  qed
qed

lemma takeWhile_takeWhile_weaker:
  "(\<And>c. P c \<Longrightarrow> Q c) \<Longrightarrow> takeWhile P (takeWhile Q s) = takeWhile P s"
  by (induction s) auto

lemma takeWhile_idChar_drop:
  assumes "j \<le> length (takeWhile isSpace s)"
  shows "takeWhile idChar (drop j s) = drop j (takeWhile idChar s)"
proof -
  have js: "j \<le> length s" using assms length_takeWhile_le [of isSpace s] by simp
  have "take j s = take j (takeWhile isSpace s)"
    using assms by (metis takeWhile_eq_take take_take min.absorb1)
  then have "set (take j s) \<subseteq> set (takeWhile isSpace s)" by (simp add: set_take_subset)
  then have "\<And>c. c \<in> set (take j s) \<Longrightarrow> idChar c"
    using set_takeWhileD [of _ isSpace s] space_idChar by blast
  then have "takeWhile idChar (take j s @ drop j s) = take j s @ takeWhile idChar (drop j s)"
    by (rule takeWhile_append2)
  then have "takeWhile idChar s = take j s @ takeWhile idChar (drop j s)" by simp
  then have "drop j (takeWhile idChar s) = drop j (take j s @ takeWhile idChar (drop j s))"
    by simp
  also have "\<dots> = takeWhile idChar (drop j s)" using js by simp
  finally show ?thesis by simp
qed

lemma mtch_idField:
  fixes r :: regex
  defines "Rbr \<equiv> (False, Rep (\<lambda>c. c = CHR ''['') 0 (Some 1)) # (True, Rep idChar 1 None)
      # (False, Rep (\<lambda>c. c = CHR '']'') 0 (Some 1)) # ws0 # (False, Lit ''|'') # r"
  shows "case idField s of
      None \<Rightarrow> mtch (ws0 # Rbr) s = None
    | Some (i, s1) \<Rightarrow> \<exists>c. trim c = trim i
        \<and> mtch (ws0 # Rbr) s =
            withCap True c (case skipBar s1 of None \<Rightarrow> None | Some t \<Rightarrow> mtch r t)"
proof -
  let ?u = "takeWhile idChar s"
  let ?w = "takeWhile isSpace s"
  let ?k = "length ?w"
  let ?P = "length ?u"
  define tail where "tail = (case skipBar (afterId (drop ?P s)) of None \<Rightarrow> None | Some t \<Rightarrow> mtch r t)"
  have wu: "takeWhile isSpace ?u = ?w"
    by (rule takeWhile_takeWhile_weaker) (rule space_idChar)
  then have core: "dropWhile isSpace ?u = drop ?k ?u"
    using dropWhile_eq_drop [of isSpace ?u] by simp
  have kP: "?k \<le> ?P" using wu length_takeWhile_le [of isSpace ?u] by simp
  have rm: "repMax isSpace None s = ?k" by (simp add: repMax_def)
  have m: "mtch (ws0 # Rbr) s = mtchRep False Rbr s 0 ?k"
    unfolding ws0_def mtch_Rep rm by simp
  have at: "\<And>j. j \<le> ?k \<Longrightarrow> mtch Rbr (drop j s) =
      (if drop j ?u = [] then None else withCap True (dropOpen (drop j ?u)) tail)"
  proof -
    fix j assume j: "j \<le> ?k"
    have u: "takeWhile idChar (drop j s) = drop j ?u" using j by (rule takeWhile_idChar_drop)
    have "length (drop j ?u) + j = ?P" using j kP by simp
    then have y: "drop (length (drop j ?u)) (drop j s) = drop ?P s" by (simp only: drop_drop)
    have "mtch Rbr (drop j s) = (if takeWhile idChar (drop j s) = [] then None
      else withCap True (dropOpen (takeWhile idChar (drop j s)))
             (mtch ((False, Rep (\<lambda>c. c = CHR '']'') 0 (Some 1)) # ws0 # (False, Lit ''|'') # r)
                (drop (length (takeWhile idChar (drop j s))) (drop j s))))"
      unfolding Rbr_def by (rule mtch_open)
    then show "mtch Rbr (drop j s) =
        (if drop j ?u = [] then None else withCap True (dropOpen (drop j ?u)) tail)"
      unfolding u y mtch_close tail_def .
  qed
  show ?thesis
  proof (cases "?u = []")
    case True
    then have "?k = 0" using kP by simp
    then have "mtch (ws0 # Rbr) s = mtch Rbr (drop 0 s)" unfolding m by (simp add: mtchRep_0)
    also have "\<dots> = None" using at [of 0] True by simp
    finally show ?thesis using True by (simp add: idField_def)
  next
    case False
    then have idf: "idField s = Some (dropOpen (drop ?k ?u), afterId (drop ?P s))"
      by (simp add: idField_def Let_def core)
    have goal: "\<exists>c. trim c = trim (dropOpen (drop ?k ?u)) \<and> mtch (ws0 # Rbr) s = withCap True c tail"
    proof (cases tail)
      case None
      have "mtchRep False Rbr s 0 ?k = None"
      proof (rule mtchRep_all_fail)
        show "0 \<le> ?k" by simp
      next
        fix j assume "0 \<le> j" "j \<le> ?k"
        then show "mtch Rbr (drop j s) = None" using at [of j] None by (simp add: withCap_None)
      qed
      then have "mtch (ws0 # Rbr) s = withCap True (dropOpen (drop ?k ?u)) tail"
        unfolding m None by (simp add: withCap_None)
      then show ?thesis by blast
    next
      case (Some a)
      show ?thesis
      proof (cases "drop ?k ?u = []")
        case ne: False
        from at [of ?k] ne have "mtch Rbr (drop ?k s) = withCap True (dropOpen (drop ?k ?u)) tail"
          by simp
        moreover obtain x where x: "withCap True (dropOpen (drop ?k ?u)) tail = Some x"
          unfolding Some by (cases a) (simp add: withCap_def)
        ultimately have "withCap False (take ?k s) (mtch Rbr (drop ?k s)) = Some x"
          by (simp add: withCap_False)
        then have "mtchRep False Rbr s 0 ?k = Some x" by (rule mtchRep_greedy)
        with x show ?thesis unfolding m by auto
      next
        case nil: True
        then have Pk: "?P = ?k" using kP by simp
        then have uw: "?u = ?w" using wu by (metis takeWhile_eq_all_conv length_takeWhile_le
              le_antisym takeWhile_eq_take take_all_iff)
        have k1: "1 \<le> ?k" using False Pk by (cases ?u) simp_all
        have "drop (?k - 1) ?u \<noteq> []" using k1 Pk by simp
        with at [of "?k - 1"] have some: "mtch Rbr (drop (?k - 1) s) \<noteq> None"
          unfolding Some by (cases a) (simp add: withCap_def)
        have "mtchRep False Rbr s 0 ?k \<noteq> None"
        proof
          assume none: "mtchRep False Rbr s 0 ?k = None"
          have "mtch Rbr (drop (?k - 1) s) = None"
            by (rule mtchRep_None_all [OF _ none]) simp_all
          with some show False by simp
        qed
        then obtain res where res: "mtchRep False Rbr s 0 ?k = Some res" by blast
        from mtchRep_some [OF _ res] obtain j
          where j: "j \<le> ?k" and "withCap False (take j s) (mtch Rbr (drop j s)) = Some res"
          by auto
        then have "mtch Rbr (drop j s) = Some res" by (simp add: withCap_False)
        with at [OF j] have val: "withCap True (dropOpen (drop j ?u)) tail = Some res"
          by (simp split: if_splits)
        have "set (dropOpen (drop j ?u)) \<subseteq> set ?w"
          using dropOpen_subset [of "drop j ?u"] set_drop_subset [of j ?u] uw by auto
        then have "\<And>c. c \<in> set (dropOpen (drop j ?u)) \<Longrightarrow> isSpace c"
          using set_takeWhileD [of _ isSpace s] by blast
        then have "trim (dropOpen (drop j ?u)) = []" by (rule trim_all_space)
        moreover have "trim (dropOpen (drop ?k ?u)) = []" by (simp add: nil trim_def)
        ultimately show ?thesis using val res unfolding m by auto
      qed
    qed
    show ?thesis unfolding idf using goal by (simp add: tail_def)
  qed
qed

lemma idChar_fun: "(\<lambda>c. c \<noteq> CHR '']'' \<and> c \<noteq> CHR ''|'') = idChar"
  by (rule ext) (simp add: idChar_def)

lemma reviewFieldsRe_parts:
  "reviewFieldsRe =
     (False, Lit ''REVIEW:'') # ws0 # (False, Rep (\<lambda>c. c = CHR ''['') 0 (Some 1))
     # (True, Rep idChar 1 None) # (False, Rep (\<lambda>c. c = CHR '']'') 0 (Some 1))
     # ws0 # (False, Lit ''|'')
     # ws0 # (True, Alt outcomeWords)
     # ws0 # (False, Lit ''|'')
     # [ws0, (True, Rep isDot 1 None)]"
  unfolding reviewFieldsRe_def idChar_fun outcomeWords_def by simp

lemma mtch_fields:
  assumes kw: "ciPrefix ''REVIEW:'' s"
  shows "case fieldsAfter (drop 7 s) of
      None \<Rightarrow> mtch reviewFieldsRe s = None
    | Some (i, oc, n) \<Rightarrow> \<exists>c m rest. mtch reviewFieldsRe s = Some ([c, oc, m], rest)
        \<and> trim c = trim i \<and> trim m = trim n"
proof -
  let ?s0 = "drop 7 s"
  let ?R6 = "[ws0, (True, Rep isDot 1 None)]"
  let ?rOut = "ws0 # (True, Alt outcomeWords) # ws0 # (False, Lit ''|'') # ?R6"
  let ?Rws = "ws0 # (False, Rep (\<lambda>c. c = CHR ''['') 0 (Some 1))
     # (True, Rep idChar 1 None) # (False, Rep (\<lambda>c. c = CHR '']'') 0 (Some 1))
     # ws0 # (False, Lit ''|'') # ?rOut"
  have m0: "mtch reviewFieldsRe s = mtch ?Rws ?s0"
    unfolding reviewFieldsRe_parts using kw by (rule mtch_keyword)
  note idf = mtch_idField [where s = ?s0 and r = ?rOut]
  have out: "\<And>x. mtch ?rOut x =
      (case outcomeField x of None \<Rightarrow> None
       | Some (oc, t) \<Rightarrow> withCap True oc
           (case skipBar t of None \<Rightarrow> None | Some t' \<Rightarrow> mtch ?R6 t'))"
    unfolding mtch_outcomeField mtch_skipBar ..
  show ?thesis
  proof (cases "idField ?s0")
    case None
    with idf show ?thesis unfolding m0 by (simp add: fieldsAfter_def del: mtch.simps)
  next
    case (Some a)
    obtain i s1 where a: "a = (i, s1)" by (cases a)
    from idf obtain c where c: "trim c = trim i"
      and m1: "mtch ?Rws ?s0 = withCap True c (case skipBar s1 of None \<Rightarrow> None | Some t \<Rightarrow> mtch ?rOut t)"
      unfolding Some a by auto
    show ?thesis
    proof (cases "skipBar s1")
      case None
      have "mtch reviewFieldsRe s = None"
        unfolding m0 m1 None by (simp only: option.case withCap_None)
      then show ?thesis
        by (simp add: fieldsAfter_def Some a None del: mtch.simps)
    next
      case sb1: (Some s2)
      have m2: "mtch reviewFieldsRe s = withCap True c (mtch ?rOut s2)"
        unfolding m0 m1 sb1 by (simp only: option.case)
      show ?thesis
      proof (cases "outcomeField s2")
        case None
        have "mtch reviewFieldsRe s = None"
          unfolding m2 out None by (simp only: option.case withCap_None)
        then show ?thesis
          by (simp add: fieldsAfter_def Some a sb1 None del: mtch.simps)
      next
        case of1: (Some b)
        obtain oc s3 where b: "b = (oc, s3)" by (cases b)
        have m3: "mtch reviewFieldsRe s = withCap True c (withCap True oc
            (case skipBar s3 of None \<Rightarrow> None | Some t' \<Rightarrow> mtch ?R6 t'))"
          unfolding m2 out of1 b by (simp only: option.case prod.case)
        show ?thesis
        proof (cases "skipBar s3")
          case None
          have "mtch reviewFieldsRe s = None"
            unfolding m3 None by (simp only: option.case withCap_None)
          then show ?thesis
            by (simp add: fieldsAfter_def Some a sb1 of1 b None del: mtch.simps)
        next
          case sb2: (Some s4)
          have m4: "mtch reviewFieldsRe s = withCap True c (withCap True oc (mtch ?R6 s4))"
            unfolding m3 sb2 by (simp only: option.case)
          show ?thesis
          proof (cases "notesField s4")
            case None
            with mtch_notesField [of s4] have "mtch ?R6 s4 = None"
              by (simp only: option.case)
            then have "mtch reviewFieldsRe s = None"
              unfolding m4 by (simp only: withCap_None)
            then show ?thesis
              by (simp add: fieldsAfter_def Some a sb1 of1 b sb2 None del: mtch.simps)
          next
            case nf: (Some n)
            with mtch_notesField [of s4] have "\<exists>m rest. mtch ?R6 s4 = Some ([m], rest)
                \<and> trim m = trim n"
              by (simp only: option.case)
            then obtain m rest
              where m6: "mtch ?R6 s4 = Some ([m], rest)" and tm: "trim m = trim n"
              by blast
            have "mtch reviewFieldsRe s = Some ([c, oc, m], rest)"
              unfolding m4 m6 by (simp add: withCap_def)
            with c tm show ?thesis
              by (simp add: fieldsAfter_def Some a sb1 of1 b sb2 nf del: mtch.simps)
          qed
        qed
      qed
    qed
  qed
qed

lemma keyword_length: "length ''REVIEW:'' = 7"
  by simp

lemma fieldsOfLine_here:
  "ciPrefix ''REVIEW:'' (x # xs) \<Longrightarrow>
   fieldsOfLine (x # xs) =
     (case fieldsAfter (drop 7 (x # xs)) of
        None \<Rightarrow> fieldsOfLine xs
      | Some (i, oc, nts) \<Rightarrow>
          (if toLowerCase oc = ''skip'' then None
           else Some \<lparr>upd_id = trim i, upd_outcome = toLowerCase oc,
                       upd_notes = trim nts\<rparr>))"
  by (simp only: fieldsOfLine.simps if_True keyword_length)

lemma parseLine_fieldsOfLine: "parseLine l = fieldsOfLine l"
proof (induction l)
  case Nil
  show ?case by (simp add: parseLine_Nil)
next
  case (Cons x xs)
  show ?case
  proof (cases "ciPrefix ''REVIEW:'' (x # xs)")
    case False
    have "parseLine (x # xs) = parseLine xs"
      unfolding parseLine_def search_fields_skip [OF False] ..
    with Cons False show ?thesis by simp
  next
    case True
    note mf = mtch_fields [OF True]
    show ?thesis
    proof (cases "fieldsAfter (drop 7 (x # xs))")
      case None
      with mf have "mtch reviewFieldsRe (x # xs) = None" by simp
      then have "search reviewFieldsRe (x # xs) = search reviewFieldsRe xs" by simp
      then have "parseLine (x # xs) = parseLine xs" unfolding parseLine_def by simp
      moreover have "fieldsOfLine (x # xs) = fieldsOfLine xs"
        unfolding fieldsOfLine_here [OF True] None by simp
      ultimately show ?thesis using Cons by simp
    next
      case (Some a)
      obtain i oc n where a: "a = (i, oc, n)" by (cases a)
      from mf obtain c m rest where m: "mtch reviewFieldsRe (x # xs) = Some ([c, oc, m], rest)"
        and tc: "trim c = trim i" and tm: "trim m = trim n"
        unfolding Some a by auto
      have "parseLine (x # xs) =
          (if toLowerCase oc = ''skip'' then None
           else Some \<lparr>upd_id = trim c, upd_outcome = toLowerCase oc, upd_notes = trim m\<rparr>)"
        unfolding parseLine_def by (simp add: m)
      moreover have "fieldsOfLine (x # xs) =
          (if toLowerCase oc = ''skip'' then None
           else Some \<lparr>upd_id = trim i, upd_outcome = toLowerCase oc, upd_notes = trim n\<rparr>)"
        unfolding fieldsOfLine_here [OF True] Some a by simp
      ultimately show ?thesis by (simp add: tc tm)
    qed
  qed
qed


text \<open>
  C6, as amended. In a review text where no line has only white space after its first
  \<open>REVIEW:\<close> (in any letter case), the extraction returns exactly the tuples of the
  lines that match the pattern of the fields, in the order of the lines; the pattern
  matches a line exactly as the fields are read from the left by \<open>fieldsOfLine\<close>: after
  a keyword, the id up to the first \<open>]\<close> or \<open>|\<close>, a bar, one of the four outcomes in any
  letter case, a bar and the notes up to the next line terminator, with white space
  allowed before each and brackets allowed around the id; the tuple has the trimmed id,
  the outcome in lower case and the trimmed notes, and there is none for \<open>skip\<close>. So a
  line \<^verbatim>\<open>REVIEW: [id] | outcome | notes\<close> gives that tuple when the id is not empty and
  has neither \<open>]\<close> nor \<open>|\<close>, and the notes have no line terminator and a character
  other than white space; a line without the keyword gives no tuple. For every review
  text, each tuple returned has the outcome \<open>correct\<close>, \<open>wrong\<close> or \<open>partial\<close>, and a
  text without the keyword gives no tuple. On the three lines of the example the
  extraction gives exactly one update, \<open>abc-1\<close> to \<open>correct\<close> with the notes
  \<open>good call\<close>, and the lesson \<open>trust the trend\<close>; the nightly review then sets \<open>abc-1\<close>
  to \<open>correct\<close>, leaves \<open>abc-2\<close> pending and stores one strategy note.
\<close>

theorem parseReview_extraction:
  "(fieldsOnLines response
      \<longrightarrow> parseReview response = parseByLine response
          \<and> parseReview response = List.map_filter fieldsOfLine (linesOf response))
   \<and> parseLine l = fieldsOfLine l
   \<and> (i \<noteq> [] \<and> (\<forall>c\<in>set i. c \<noteq> CHR '']'' \<and> c \<noteq> CHR ''|'')
        \<and> toLowerCase oc \<in> {''correct'', ''wrong'', ''partial'', ''skip''}
        \<and> list_ex (\<lambda>c. \<not> isSpace c) nts \<and> list_all isDot nts
      \<longrightarrow> parseLine (reviewLine i oc nts) =
            (if toLowerCase oc = ''skip'' then None
             else Some \<lparr>upd_id = trim i, upd_outcome = toLowerCase oc,
                         upd_notes = trim nts\<rparr>))
   \<and> (\<not> containsCI ''REVIEW:'' l \<longrightarrow> parseLine l = None)
   \<and> list_all (\<lambda>u. upd_outcome u \<in> {''correct'', ''wrong'', ''partial''})
        (parseReview response)
   \<and> (\<not> containsCI ''REVIEW:'' response \<longrightarrow> parseReview response = [])
   \<and> parseReview sampleReview =
       [\<lparr>upd_id = ''abc-1'', upd_outcome = ''correct'', upd_notes = ''good call''\<rparr>]
   \<and> parseLesson sampleReview = Some ''trust the trend''
   \<and> map outcome (recommendations
         (nightlyReview (- 18000000) 1704330000000 (Some sampleReview) 1704330060000 True
            twoCalls)) = [Some ''correct'', Some ''pending'']
   \<and> strategyNotes
         (nightlyReview (- 18000000) 1704330000000 (Some sampleReview) 1704330060000 True
            twoCalls) = [''[2024-01-04] trust the trend'']"
proof (intro conjI impI)
  assume "fieldsOnLines response"
  then show byLine: "parseReview response = parseByLine response"
    by (rule parseReview_by_line)
  have "parseLine = fieldsOfLine" by (rule ext) (rule parseLine_fieldsOfLine)
  then show "parseReview response = List.map_filter fieldsOfLine (linesOf response)"
    unfolding byLine parseByLine_def by simp
next
  show "parseLine l = fieldsOfLine l" by (rule parseLine_fieldsOfLine)
next
  assume h: "i \<noteq> [] \<and> (\<forall>c\<in>set i. c \<noteq> CHR '']'' \<and> c \<noteq> CHR ''|'')
        \<and> toLowerCase oc \<in> {''correct'', ''wrong'', ''partial'', ''skip''}
        \<and> list_ex (\<lambda>c. \<not> isSpace c) nts \<and> list_all isDot nts"
  then have h1: "i \<noteq> []" and h2: "\<forall>c\<in>set i. c \<noteq> CHR '']'' \<and> c \<noteq> CHR ''|''"
    and h3: "toLowerCase oc \<in> {''correct'', ''wrong'', ''partial'', ''skip''}"
    and h4: "list_ex (\<lambda>c. \<not> isSpace c) nts" and h5: "list_all isDot nts"
    by blast+
  show "parseLine (reviewLine i oc nts) =
      (if toLowerCase oc = ''skip'' then None
       else Some \<lparr>upd_id = trim i, upd_outcome = toLowerCase oc, upd_notes = trim nts\<rparr>)"
    by (rule parseLine_reviewLine [OF h1 h2 h3 h4 h5])
next
  assume "\<not> containsCI ''REVIEW:'' l"
  then show "parseLine l = None" by (rule parseLine_no_keyword)
next
  show "list_all (\<lambda>u. upd_outcome u \<in> {''correct'', ''wrong'', ''partial''})
      (parseReview response)"
    by (rule parseReview_outcomes)
next
  assume "\<not> containsCI ''REVIEW:'' response"
  then show "parseReview response = []"
    by (simp add: parseReview_def matchAll_no_keyword List.map_filter_def)
next
  show "parseReview sampleReview =
      [\<lparr>upd_id = ''abc-1'', upd_outcome = ''correct'', upd_notes = ''good call''\<rparr>]"
    by code_simp
next
  show "parseLesson sampleReview = Some ''trust the trend''"
    by code_simp
next
  show "map outcome (recommendations
         (nightlyReview (- 18000000) 1704330000000 (Some sampleReview) 1704330060000 True
            twoCalls)) = [Some ''correct'', Some ''pending'']"
    by code_simp
next
  show "strategyNotes
         (nightlyReview (- 18000000) 1704330000000 (Some sampleReview) 1704330060000 True
            twoCalls) = [''[2024-01-04] trust the trend'']"
    by code_simp
qed

theorem parseReview_extraction_witness:
  "fieldsOnLines sampleReview \<and> parseReview sampleReview = parseByLine sampleReview
   \<and> parseReview sampleReview = List.map_filter fieldsOfLine (linesOf sampleReview)
   \<and> parseLine (reviewLine ''abc-7'' ''Wrong'' ''late entry'') =
       Some \<lparr>upd_id = ''abc-7'', upd_outcome = ''wrong'', upd_notes = ''late entry''\<rparr>
   \<and> parseLine (reviewLine ''abc-2'' ''skip'' ''too early'') = None
   \<and> \<not> containsCI ''REVIEW:'' ''LESSON: trust the trend''
   \<and> parseLine ''LESSON: trust the trend'' = None
   \<and> parseReview ''LESSON: trust the trend'' = []"
proof -
  have lines: "fieldsOnLines sampleReview"
    by code_simp
  note both = parseReview_extraction [THEN conjunct1, THEN mp, OF lines]
  have byLine: "parseReview sampleReview = parseByLine sampleReview"
    by (rule both [THEN conjunct1])
  have byFields: "parseReview sampleReview = List.map_filter fieldsOfLine (linesOf sampleReview)"
    by (rule both [THEN conjunct2])
  have shape7: "''abc-7'' \<noteq> [] \<and> (\<forall>c\<in>set ''abc-7''. c \<noteq> CHR '']'' \<and> c \<noteq> CHR ''|'')
      \<and> toLowerCase ''Wrong'' \<in> {''correct'', ''wrong'', ''partial'', ''skip''}
      \<and> list_ex (\<lambda>c. \<not> isSpace c) ''late entry'' \<and> list_all isDot ''late entry''"
    by code_simp
  have val7: "(if toLowerCase ''Wrong'' = ''skip'' then None
       else Some \<lparr>upd_id = trim ''abc-7'', upd_outcome = toLowerCase ''Wrong'',
                   upd_notes = trim ''late entry''\<rparr>) =
      Some \<lparr>upd_id = ''abc-7'', upd_outcome = ''wrong'', upd_notes = ''late entry''\<rparr>"
    by code_simp
  have line7: "parseLine (reviewLine ''abc-7'' ''Wrong'' ''late entry'') =
      Some \<lparr>upd_id = ''abc-7'', upd_outcome = ''wrong'', upd_notes = ''late entry''\<rparr>"
    by (rule trans [OF parseReview_extraction [THEN conjunct2, THEN conjunct2,
          THEN conjunct1, THEN mp, OF shape7] val7])
  have shape2: "''abc-2'' \<noteq> [] \<and> (\<forall>c\<in>set ''abc-2''. c \<noteq> CHR '']'' \<and> c \<noteq> CHR ''|'')
      \<and> toLowerCase ''skip'' \<in> {''correct'', ''wrong'', ''partial'', ''skip''}
      \<and> list_ex (\<lambda>c. \<not> isSpace c) ''too early'' \<and> list_all isDot ''too early''"
    by code_simp
  have val2: "(if toLowerCase ''skip'' = ''skip'' then None
       else Some \<lparr>upd_id = trim ''abc-2'', upd_outcome = toLowerCase ''skip'',
                   upd_notes = trim ''too early''\<rparr>) = None"
    by code_simp
  have line2: "parseLine (reviewLine ''abc-2'' ''skip'' ''too early'') = None"
    by (rule trans [OF parseReview_extraction [THEN conjunct2, THEN conjunct2,
          THEN conjunct1, THEN mp, OF shape2] val2])
  have absent: "\<not> containsCI ''REVIEW:'' ''LESSON: trust the trend''"
    by code_simp
  have noLine: "parseLine ''LESSON: trust the trend'' = None"
    by (rule parseReview_extraction [THEN conjunct2, THEN conjunct2, THEN conjunct2,
          THEN conjunct1, THEN mp, OF absent])
  have noText: "parseReview ''LESSON: trust the trend'' = []"
    by (rule parseReview_extraction [THEN conjunct2, THEN conjunct2, THEN conjunct2,
          THEN conjunct2, THEN conjunct2, THEN conjunct1, THEN mp, OF absent])
  from lines byLine byFields line7 line2 absent noLine noText show ?thesis
    by (intro conjI)
qed

text \<open>C6 as stated fails on a text whose line ends after the keyword: the white space
  that the pattern skips takes the line break, and the next line supplies the fields. An
  update comes out although no line of the text matches.\<close>

theorem parseReview_across_lines:
  "parseReview brokenReview =
     [\<lparr>upd_id = ''abc-1'', upd_outcome = ''correct'', upd_notes = ''good call''\<rparr>]
   \<and> parseByLine brokenReview = []
   \<and> List.map_filter fieldsOfLine (linesOf brokenReview) = []
   \<and> \<not> fieldsOnLines brokenReview"
  by code_simp

section \<open>The weekly review\<close>

lemma weeklyScores_recordWeeklyScore:
  "weeklyScores (recordWeeklyScore score data) =
     drop (length (weeklyScores data) + 1 - 52) (weeklyScores data @ [score])"
  by (simp add: recordWeeklyScore_def Let_def sliceLast_def)

text \<open>
  C4, as amended. When the weekly review has already been marked for today's New York
  date, nothing happens. Otherwise, with fewer than 2 qualifying calls (dated on or
  after the UTC date seven days before the clock, with an outcome other than
  \<open>pending\<close>) the review is marked and no WeeklyScore is added. With 2 or more, a failed
  collaborator call adds nothing, and a collaborator response adds exactly one
  WeeklyScore at the end of the list (the oldest going when there are more than 52),
  whose accuracy is \<^verbatim>\<open>Math.round\<close> of the expression in double-precision arithmetic.
  That accuracy is \<open>round((correct + 0.5 * partial) / total * 100)\<close>, a half going up,
  or one less; it is the former whenever the exact value is not half-way between two
  integers. For 1 correct and 1 wrong call it is 50.
\<close>

theorem weeklyReview_score:
  "(lastWeeklyReview data = getTodayET off t0
      \<longrightarrow> weeklyReview off t0 resp t1 restOk data = data)
   \<and> (lastWeeklyReview data \<noteq> getTodayET off t0 \<and> length (thisWeek t0 data) < 2
      \<longrightarrow> weeklyReview off t0 resp t1 restOk data = markWeeklyReview t0 data
          \<and> weeklyScores (weeklyReview off t0 resp t1 restOk data) = weeklyScores data)
   \<and> (lastWeeklyReview data \<noteq> getTodayET off t0 \<and> 2 \<le> length (thisWeek t0 data)
      \<longrightarrow> weeklyReview off t0 None t1 restOk data = data
          \<and> weeklyScores (weeklyReview off t0 (Some response) t1 restOk data) =
              drop (length (weeklyScores data) + 1 - 52)
                (weeklyScores data @ [weeklyScoreOf t0 response (thisWeek t0 data)])
          \<and> accuracy (last (weeklyScores
                (weeklyReview off t0 (Some response) t1 restOk data))) =
              weeklyAccuracy (countOutcome ''correct'' (thisWeek t0 data))
                (countOutcome ''partial'' (thisWeek t0 data)) (length (thisWeek t0 data)))
   \<and> countOutcome ''correct'' week + countOutcome ''partial'' week \<le> length week
   \<and> (0 < calls \<and> calls \<le> 2 ^ 32 \<and> c + p \<le> calls
      \<longrightarrow> (weeklyAccuracy c p calls = exactAccuracy c p calls
           \<or> weeklyAccuracy c p calls = exactAccuracy c p calls - 1)
          \<and> (((2 * int c + int p) * 100 + int calls) mod (2 * int calls) \<noteq> 0
             \<longrightarrow> weeklyAccuracy c p calls = exactAccuracy c p calls))
   \<and> weeklyAccuracy 1 0 2 = 50"
proof (intro conjI impI)
  assume "lastWeeklyReview data = getTodayET off t0"
  then show "weeklyReview off t0 resp t1 restOk data = data"
    by (simp add: weeklyReview_def)
next
  assume h: "lastWeeklyReview data \<noteq> getTodayET off t0 \<and> length (thisWeek t0 data) < 2"
  then show m: "weeklyReview off t0 resp t1 restOk data = markWeeklyReview t0 data"
    by (simp add: weeklyReview_def)
  show "weeklyScores (weeklyReview off t0 resp t1 restOk data) = weeklyScores data"
    unfolding m by (simp add: markWeeklyReview_def)
next
  assume h: "lastWeeklyReview data \<noteq> getTodayET off t0 \<and> 2 \<le> length (thisWeek t0 data)"
  then show "weeklyReview off t0 None t1 restOk data = data"
    by (simp add: weeklyReview_def)
  from h show ws: "weeklyScores (weeklyReview off t0 (Some response) t1 restOk data) =
      drop (length (weeklyScores data) + 1 - 52)
        (weeklyScores data @ [weeklyScoreOf t0 response (thisWeek t0 data)])"
    by (simp add: weeklyReview_def Let_def markWeeklyReview_def
        weeklyScores_recordWeeklyScore)
  show "accuracy (last (weeklyScores (weeklyReview off t0 (Some response) t1 restOk data))) =
      weeklyAccuracy (countOutcome ''correct'' (thisWeek t0 data))
        (countOutcome ''partial'' (thisWeek t0 data)) (length (thisWeek t0 data))"
    unfolding ws by (simp add: weeklyScoreOf_def)
next
  show "countOutcome ''correct'' week + countOutcome ''partial'' week \<le> length week"
    by (rule count_le_length)
next
  assume h: "0 < calls \<and> calls \<le> 2 ^ 32 \<and> c + p \<le> calls"
  then show "weeklyAccuracy c p calls = exactAccuracy c p calls
      \<or> weeklyAccuracy c p calls = exactAccuracy c p calls - 1"
    by (intro weeklyAccuracy_close(1)) simp_all
next
  assume h: "0 < calls \<and> calls \<le> 2 ^ 32 \<and> c + p \<le> calls"
    and r: "((2 * int c + int p) * 100 + int calls) mod (2 * int calls) \<noteq> 0"
  from h have a: "0 < calls" and b: "calls \<le> 2 ^ 32" and s: "c + p \<le> calls" by simp_all
  from a b s r show "weeklyAccuracy c p calls = exactAccuracy c p calls"
    by (rule weeklyAccuracy_close(2))
next
  show "weeklyAccuracy 1 0 2 = 50" by code_simp
qed

theorem weeklyReview_score_witness:
  "lastWeeklyReview reviewedWeek \<noteq> getTodayET (- 18000000) 1704504600000
   \<and> length (thisWeek 1704504600000 reviewedWeek) = 2
   \<and> map accuracy (weeklyScores
        (weeklyReview (- 18000000) 1704504600000 (Some sampleNarrative) 1704504660000 True
           reviewedWeek)) = [50]
   \<and> lastWeeklyReview oneReviewed \<noteq> getTodayET (- 18000000) 1704504600000
   \<and> length (thisWeek 1704504600000 oneReviewed) = 1
   \<and> weeklyScores
        (weeklyReview (- 18000000) 1704504600000 (Some sampleNarrative) 1704504660000 True
           oneReviewed) = []
   \<and> weeklyReview (- 18000000) 1704504600000 (Some sampleNarrative) 1704504660000 True
        (reviewedWeek\<lparr>lastWeeklyReview := ''2024-01-05''\<rparr>) =
      reviewedWeek\<lparr>lastWeeklyReview := ''2024-01-05''\<rparr>
   \<and> ((2 * int 1 + int 0) * 100 + int 2) mod (2 * int 2) \<noteq> 0
   \<and> weeklyAccuracy 1 0 2 = exactAccuracy 1 0 2"
proof -
  have two: "lastWeeklyReview reviewedWeek \<noteq> getTodayET (- 18000000) 1704504600000
      \<and> length (thisWeek 1704504600000 reviewedWeek) = 2"
    by code_simp
  then have enough: "lastWeeklyReview reviewedWeek \<noteq> getTodayET (- 18000000) 1704504600000
      \<and> 2 \<le> length (thisWeek 1704504600000 reviewedWeek)"
    by simp
  have one: "lastWeeklyReview oneReviewed \<noteq> getTodayET (- 18000000) 1704504600000
      \<and> length (thisWeek 1704504600000 oneReviewed) = 1"
    by code_simp
  then have few: "lastWeeklyReview oneReviewed \<noteq> getTodayET (- 18000000) 1704504600000
      \<and> length (thisWeek 1704504600000 oneReviewed) < 2"
    by simp
  have marked: "lastWeeklyReview (reviewedWeek\<lparr>lastWeeklyReview := ''2024-01-05''\<rparr>) =
      getTodayET (- 18000000) 1704504600000"
    by code_simp
  have a: "weeklyScores
        (weeklyReview (- 18000000) 1704504600000 (Some sampleNarrative) 1704504660000 True
           reviewedWeek) =
      drop (length (weeklyScores reviewedWeek) + 1 - 52)
        (weeklyScores reviewedWeek
           @ [weeklyScoreOf 1704504600000 sampleNarrative (thisWeek 1704504600000 reviewedWeek)])"
    by (rule weeklyReview_score [THEN conjunct2, THEN conjunct2, THEN conjunct1, THEN mp,
          OF enough, THEN conjunct2, THEN conjunct1])
  have acc: "map accuracy (drop (length (weeklyScores reviewedWeek) + 1 - 52)
        (weeklyScores reviewedWeek
           @ [weeklyScoreOf 1704504600000 sampleNarrative (thisWeek 1704504600000 reviewedWeek)]))
      = [50]"
    by code_simp
  have b: "weeklyScores
        (weeklyReview (- 18000000) 1704504600000 (Some sampleNarrative) 1704504660000 True
           oneReviewed) = weeklyScores oneReviewed"
    by (rule weeklyReview_score [THEN conjunct2, THEN conjunct1, THEN mp, OF few,
          THEN conjunct2])
  have empty: "weeklyScores oneReviewed = []" by code_simp
  have c: "weeklyReview (- 18000000) 1704504600000 (Some sampleNarrative) 1704504660000 True
        (reviewedWeek\<lparr>lastWeeklyReview := ''2024-01-05''\<rparr>) =
      reviewedWeek\<lparr>lastWeeklyReview := ''2024-01-05''\<rparr>"
    by (rule weeklyReview_score [THEN conjunct1, THEN mp, OF marked])
  have sizes: "0 < (2::nat) \<and> (2::nat) \<le> 2 ^ 32 \<and> (1::nat) + 0 \<le> 2"
    by simp
  have tie: "((2 * int 1 + int 0) * 100 + int 2) mod (2 * int 2) \<noteq> 0"
    by simp
  have exact: "weeklyAccuracy 1 0 2 = exactAccuracy 1 0 2"
    by (rule weeklyReview_score [THEN conjunct2, THEN conjunct2, THEN conjunct2,
          THEN conjunct2, THEN conjunct1, THEN mp, OF sizes, THEN conjunct2, THEN mp, OF tie])
  from two one a acc b empty c tie exact show ?thesis by simp
qed

text \<open>C4 as stated fails in two ways. With 2 qualifying calls and a collaborator call
  that fails, no WeeklyScore is produced. And the accuracy is computed in doubles: for
  11 correct and 1 partial out of 20 calls the quotient 0.575 times 100 is
  57.49999999999999, which rounds to 57, while (11 + 0.5) / 20 * 100 is 57.5 and rounds
  to 58.\<close>

theorem weeklyReview_no_score_and_rounding:
  "2 \<le> length (thisWeek 1704504600000 reviewedWeek)
   \<and> weeklyScores (weeklyReview (- 18000000) 1704504600000 None 1704504660000 True
        reviewedWeek) = []
   \<and> weeklyAccuracy 11 1 20 = 57
   \<and> exactAccuracy 11 1 20 = 58"
  by code_simp

text \<open>
  C8, evaluated where it fails. The weekly review runs on Friday at 20:30 in New York:
  at clock 1704504600000 (Friday 2024-01-05 there, 01:30 UTC on Saturday 2024-01-06) it
  appends a WeeklyScore whose \<open>weekOf\<close> is 2023-12-30, the UTC date seven days before,
  and that day is a Saturday (\<^verbatim>\<open>getDay\<close> 6), not a Monday.
\<close>

theorem weeklyReview_weekOf_saturday:
  "map weekOf (weeklyScores
      (weeklyReview (- 18000000) 1704504600000 (Some sampleNarrative) 1704504660000 True
         reviewedWeek)) = [''2023-12-30'']
   \<and> map_option weekDay (parseDate ''2023-12-30'') = Some 6"
  by code_simp

section \<open>Dates as text\<close>

lemma digitChar_not_T: "0 \<le> a \<Longrightarrow> a < 36 \<Longrightarrow> digitChar a \<noteq> CHR ''T''"
proof -
  assume a: "0 \<le> a" "a < 36"
  let ?ds = "''0123456789abcdefghijklmnopqrstuvwxyz''"
  have "nat a < length ?ds" using a by simp
  then have "?ds ! nat a \<in> set ?ds" by (rule nth_mem)
  moreover have "CHR ''T'' \<notin> set ?ds" by simp
  ultimately show ?thesis unfolding digitChar_def by metis
qed

lemma padDec_no_T: "CHR ''T'' \<notin> set (padDec w n)"
proof (induction w arbitrary: n)
  case 0
  show ?case by simp
next
  case (Suc w)
  have "digitChar (n mod 10) \<noteq> CHR ''T''"
    by (rule digitChar_not_T) simp_all
  with Suc show ?case by auto
qed

lemma isoDateOfDay_no_T: "CHR ''T'' \<notin> set (isoDateOfDay dn)"
  by (auto simp add: isoDateOfDay_def isoYear_def padDec_no_T split: prod.splits)

lemma toISODate_day: "toISODate t = isoDateOfDay (Day t)"
proof -
  have "takeWhile (\<lambda>c. c \<noteq> CHR ''T'') (isoDateOfDay (Day t) @ CHR ''T'' # rest) =
      isoDateOfDay (Day t)" for rest
    using isoDateOfDay_no_T [of "Day t"]
    by (auto simp add: takeWhile_tail takeWhile_eq_all_conv)
  then show ?thesis
    by (simp add: toISODate_def toISOString_def splitT0_def Let_def)
qed

lemma Day_of_days: "Day (dn * msPerDay) = dn"
  by (simp add: Day_def msPerDay_def)

lemma monday_arith:
  "weekDay dn \<noteq> 0 \<Longrightarrow> dn - weekDay dn + 1 = mondayOnOrBefore dn"
  unfolding weekDay_def mondayOnOrBefore_def by presburger

lemma mondayOnOrBefore_is_monday:
  "weekDay (mondayOnOrBefore dn) = 1 \<and> mondayOnOrBefore dn \<le> dn
   \<and> dn < mondayOnOrBefore dn + 7"
  unfolding weekDay_def mondayOnOrBefore_def by presburger

lemma weekKeyOf_monday:
  assumes "parseDate ds = Some dn" and "weekDay dn \<noteq> 0"
  shows "weekKeyOf ds = Inr (isoDateOfDay (mondayOnOrBefore dn))"
  using assms by (simp add: weekKeyOf_def toISODate_day Day_of_days monday_arith)

lemma collect_dated:
  assumes "mtime f < cutoff" and "isDaily (name f)"
    and "search dateRe (name f) = Some (ds # caps)" and "weekKeyOf ds = Inr key"
  shows "collect cutoff (f # fs) g =
     collect cutoff fs
       (if readable f then pushEntry key (name f, content f) (addGroup key g)
        else addGroup key g)"
  using assms by simp


text \<open>
  C3, as amended. For an embedded date that is valid and does not fall on a Sunday, the
  week key is the ISO text of the Monday on or before that date (a Monday, at most six
  days back); an old daily file with that date is put into the group of that key when it
  can be read. The two files dated 2024-01-02 and 2024-01-03 are grouped under
  2024-01-01, and the consolidation writes one summary,
  \<open>weekly-summary-2024-01-01.md\<close>, and deletes both files.
\<close>

theorem consolidate_week_key:
  "(parseDate ds = Some dn \<and> weekDay dn \<noteq> 0
      \<longrightarrow> weekKeyOf ds = Inr (isoDateOfDay (mondayOnOrBefore dn))
          \<and> weekDay (mondayOnOrBefore dn) = 1 \<and> mondayOnOrBefore dn \<le> dn
          \<and> dn < mondayOnOrBefore dn + 7)
   \<and> (mtime f < cutoff \<and> isDaily (name f) \<and> search dateRe (name f) = Some (ds' # caps)
       \<and> weekKeyOf ds' = Inr key
      \<longrightarrow> collect cutoff (f # fs) g =
            collect cutoff fs
              (if readable f then pushEntry key (name f, content f) (addGroup key g)
               else addGroup key g))
   \<and> collect (1705000000000 - 7 * 24 * 60 * 60 * 1000) (getBrainFiles twoDaily) [] =
       Inr [(''2024-01-01'',
             [(''morning-brief-2024-01-02.md'', ''# Morning Brief''),
              (''eod-recap-2024-01-03.md'', ''# End of Day Recap'')])]
   \<and> map_sum id (\<lambda>r. (map name (fst r), snd r)) (consolidateOldFiles 1705000000000 twoDaily) =
       Inr ([''weekly-summary-2024-01-01.md''], 1, 2)"
proof (intro conjI impI)
  assume h: "parseDate ds = Some dn \<and> weekDay dn \<noteq> 0"
  then show "weekKeyOf ds = Inr (isoDateOfDay (mondayOnOrBefore dn))"
    by (simp add: weekKeyOf_monday)
  show "weekDay (mondayOnOrBefore dn) = 1" "mondayOnOrBefore dn \<le> dn"
    "dn < mondayOnOrBefore dn + 7"
    using mondayOnOrBefore_is_monday [of dn] by simp_all
next
  assume h: "mtime f < cutoff \<and> isDaily (name f) \<and> search dateRe (name f) = Some (ds' # caps)
       \<and> weekKeyOf ds' = Inr key"
  then have a: "mtime f < cutoff" and b: "isDaily (name f)"
    and c: "search dateRe (name f) = Some (ds' # caps)" and d: "weekKeyOf ds' = Inr key"
    by simp_all
  show "collect cutoff (f # fs) g =
      collect cutoff fs
        (if readable f then pushEntry key (name f, content f) (addGroup key g)
         else addGroup key g)"
    by (rule collect_dated [OF a b c d])
next
  show "collect (1705000000000 - 7 * 24 * 60 * 60 * 1000) (getBrainFiles twoDaily) [] =
       Inr [(''2024-01-01'',
             [(''morning-brief-2024-01-02.md'', ''# Morning Brief''),
              (''eod-recap-2024-01-03.md'', ''# End of Day Recap'')])]"
    by code_simp
next
  show "map_sum id (\<lambda>r. (map name (fst r), snd r)) (consolidateOldFiles 1705000000000 twoDaily) =
       Inr ([''weekly-summary-2024-01-01.md''], 1, 2)"
    by code_simp
qed

theorem consolidate_week_key_witness:
  "parseDate ''2024-01-02'' = Some 19724 \<and> weekDay 19724 \<noteq> 0
   \<and> weekKeyOf ''2024-01-02'' = Inr ''2024-01-01''
   \<and> mtime (hd twoDaily) < 1704395200000 \<and> isDaily (name (hd twoDaily))
   \<and> search dateRe (name (hd twoDaily)) = Some [''2024-01-02'']
   \<and> collect 1704395200000 [hd twoDaily] [] =
       Inr [(''2024-01-01'', [(''morning-brief-2024-01-02.md'', ''# Morning Brief'')])]"
proof -
  have d: "parseDate ''2024-01-02'' = Some 19724 \<and> weekDay 19724 \<noteq> 0"
    by code_simp
  have "weekKeyOf ''2024-01-02'' = Inr (isoDateOfDay (mondayOnOrBefore 19724))"
    by (rule consolidate_week_key [THEN conjunct1, THEN mp, OF d, THEN conjunct1])
  moreover have "isoDateOfDay (mondayOnOrBefore 19724) = ''2024-01-01''"
    by code_simp
  ultimately have k: "weekKeyOf ''2024-01-02'' = Inr ''2024-01-01''" by simp
  have f: "mtime (hd twoDaily) < 1704395200000 \<and> isDaily (name (hd twoDaily))
      \<and> search dateRe (name (hd twoDaily)) = Some [''2024-01-02'']"
    by code_simp
  have hyp: "mtime (hd twoDaily) < 1704395200000 \<and> isDaily (name (hd twoDaily))
      \<and> search dateRe (name (hd twoDaily)) = Some (''2024-01-02'' # [])
      \<and> weekKeyOf ''2024-01-02'' = Inr ''2024-01-01''"
    using f k by simp
  have "collect 1704395200000 (hd twoDaily # []) [] =
      collect 1704395200000 []
        (if readable (hd twoDaily)
         then pushEntry ''2024-01-01'' (name (hd twoDaily), content (hd twoDaily))
                (addGroup ''2024-01-01'' [])
         else addGroup ''2024-01-01'' [])"
    by (rule consolidate_week_key [THEN conjunct2, THEN conjunct1, THEN mp, OF hyp])
  moreover have "collect 1704395200000 []
        (if readable (hd twoDaily)
         then pushEntry ''2024-01-01'' (name (hd twoDaily), content (hd twoDaily))
                (addGroup ''2024-01-01'' [])
         else addGroup ''2024-01-01'' []) =
      Inr [(''2024-01-01'', [(''morning-brief-2024-01-02.md'', ''# Morning Brief'')])]"
    by code_simp
  ultimately have c: "collect 1704395200000 [hd twoDaily] [] =
      Inr [(''2024-01-01'', [(''morning-brief-2024-01-02.md'', ''# Morning Brief'')])]"
    by simp
  from d k f c show ?thesis by simp
qed

text \<open>C3 as stated fails for a date that falls on a Sunday: the key of 2024-01-07 is
  2024-01-08, the Monday after it, while the Monday on or before it is 2024-01-01; an
  old scan file of that Sunday goes into the group 2024-01-08.\<close>

theorem consolidate_sunday_key:
  "parseDate ''2024-01-07'' = Some 19729 \<and> weekDay 19729 = 0
   \<and> weekKeyOf ''2024-01-07'' = Inr ''2024-01-08''
   \<and> isoDateOfDay (mondayOnOrBefore 19729) = ''2024-01-01''
   \<and> collect 1706000000000 [sundayScan] [] =
       Inr [(''2024-01-08'', [(''scan-watchlist-2024-01-07.md'', ''# watchlist Scan'')])]"
  by code_simp

section \<open>The first loop of the consolidation\<close>

lemma collect_step:
  "collect cutoff (f # fs) g =
     (if \<not> eligible cutoff f then collect cutoff fs g
      else case fileKey f of
             None \<Rightarrow> collect cutoff fs g
           | Some (Inl e) \<Rightarrow> Inl e
           | Some (Inr key) \<Rightarrow>
               collect cutoff fs
                 (if readable f then pushEntry key (name f, content f) (addGroup key g)
                  else addGroup key g))"
  by (auto simp add: eligible_def fileKey_def split: option.splits list.splits sum.splits)

declare collect.simps(2) [simp del]

lemma groupLen_addGroup: "groupLen key (addGroup k g) = groupLen key g"
  by (auto simp add: groupLen_def addGroup_def list_ex_iff map_add_def
      split: option.splits if_splits)

lemma map_of_pushEntry:
  "map_of (pushEntry k e g) key =
     (if key = k then map_option (\<lambda>es. es @ [e]) (map_of g k) else map_of g key)"
  by (induction g) (auto simp add: pushEntry_def)

lemma addGroup_has_key: "map_of (addGroup k g) k \<noteq> None"
  by (auto simp add: addGroup_def list_ex_iff map_of_eq_None_iff)

lemma groupLen_push:
  "groupLen key (pushEntry k e (addGroup k g)) =
     groupLen key g + (if key = k then 1 else 0)"
proof (cases "key = k")
  case True
  obtain es where es: "map_of (addGroup k g) k = Some es"
    using addGroup_has_key [of k g] by auto
  then have "groupLen k (addGroup k g) = length es" by (simp add: groupLen_def)
  then have "length es = groupLen k g" by (simp add: groupLen_addGroup)
  with es True show ?thesis by (simp add: groupLen_def map_of_pushEntry)
next
  case False
  then have "groupLen key (pushEntry k e (addGroup k g)) = groupLen key (addGroup k g)"
    by (simp add: groupLen_def map_of_pushEntry)
  with False show ?thesis by (simp add: groupLen_addGroup)
qed

lemma collect_groupLen:
  "collect cutoff files g = Inr g' \<Longrightarrow>
   groupLen key g' = groupLen key g + length (filter (inGroup cutoff key) files)"
proof (induction files arbitrary: g)
  case Nil
  then show ?case by simp
next
  case (Cons f fs)
  show ?case
  proof (cases "eligible cutoff f")
    case False
    with Cons show ?thesis by (simp add: collect_step inGroup_def)
  next
    case el: True
    show ?thesis
    proof (cases "fileKey f")
      case None
      with el Cons show ?thesis by (simp add: collect_step inGroup_def)
    next
      case (Some r)
      show ?thesis
      proof (cases r)
        case (Inl e)
        with Some el Cons.prems show ?thesis by (simp add: collect_step)
      next
        case (Inr k)
        let ?g = "if readable f then pushEntry k (name f, content f) (addGroup k g)
            else addGroup k g"
        from Inr Some el Cons.prems have "collect cutoff fs ?g = Inr g'"
          by (simp add: collect_step)
        then have "groupLen key g' = groupLen key ?g + length (filter (inGroup cutoff key) fs)"
          by (rule Cons.IH)
        moreover have "groupLen key ?g =
            groupLen key g + (if inGroup cutoff key f then 1 else 0)"
          using Inr Some el by (auto simp add: inGroup_def groupLen_push groupLen_addGroup)
        ultimately show ?thesis by simp
      qed
    qed
  qed
qed

lemma distinct_addGroup: "distinct (map fst g) \<Longrightarrow> distinct (map fst (addGroup k g))"
  by (auto simp add: addGroup_def list_ex_iff)

lemma keys_pushEntry: "map fst (pushEntry k e g) = map fst g"
  by (induction g) (auto simp add: pushEntry_def)

lemma collect_distinct:
  "collect cutoff files g = Inr g' \<Longrightarrow> distinct (map fst g) \<Longrightarrow> distinct (map fst g')"
proof (induction files arbitrary: g)
  case Nil
  then show ?case by simp
next
  case (Cons f fs)
  then show ?case
    by (auto simp add: collect_step keys_pushEntry distinct_addGroup
        split: if_splits option.splits sum.splits)
qed

lemma dailyEntries_addGroup: "dailyEntries g \<Longrightarrow> dailyEntries (addGroup k g)"
  by (simp add: dailyEntries_def addGroup_def)

lemma dailyEntries_pushEntry:
  "dailyEntries g \<Longrightarrow> isDaily (fst e) \<Longrightarrow> dailyEntries (pushEntry k e g)"
  by (induction g) (auto simp add: dailyEntries_def pushEntry_def)

lemma collect_dailyEntries:
  "collect cutoff files g = Inr g' \<Longrightarrow> dailyEntries g \<Longrightarrow> dailyEntries g'"
proof (induction files arbitrary: g)
  case Nil
  then show ?case by simp
next
  case (Cons f fs)
  show ?case
  proof (cases "eligible cutoff f")
    case False
    with Cons show ?thesis by (simp add: collect_step)
  next
    case True
    then have d: "isDaily (name f)" by (simp add: eligible_def)
    from True Cons.prems Cons.IH d show ?thesis
      by (auto simp add: collect_step dailyEntries_addGroup dailyEntries_pushEntry
          split: option.splits sum.splits if_splits)
  qed
qed

lemma collect_no_error:
  "collect cutoff files g = Inr g' \<Longrightarrow> f \<in> set files \<Longrightarrow> eligible cutoff f \<Longrightarrow>
   fileKey f \<noteq> Some (Inl e)"
proof (induction files arbitrary: g)
  case Nil
  then show ?case by simp
next
  case (Cons a fs)
  then show ?case
    by (auto simp add: collect_step split: if_splits option.splits sum.splits)
qed

lemma collect_total:
  "(\<And>f e. f \<in> set files \<Longrightarrow> eligible cutoff f \<Longrightarrow> fileKey f \<noteq> Some (Inl e)) \<Longrightarrow>
   \<exists>g'. collect cutoff files g = Inr g'"
proof (induction files arbitrary: g)
  case Nil
  then show ?case by simp
next
  case (Cons a fs)
  have rest: "\<exists>g'. collect cutoff fs h = Inr g'" for h
    using Cons.prems by (intro Cons.IH) auto
  show ?case
  proof (cases "eligible cutoff a")
    case False
    with rest show ?thesis by (simp add: collect_step)
  next
    case True
    with Cons.prems [of a] have "fileKey a \<noteq> Some (Inl e)" for e by simp
    with True rest show ?thesis
      by (auto simp add: collect_step split: option.splits sum.splits)
  qed
qed

lemma collect_cong_cutoff:
  "(\<And>f. f \<in> set files \<Longrightarrow> eligible c1 f = eligible c2 f) \<Longrightarrow>
   collect c1 files g = collect c2 files g"
proof (induction files arbitrary: g)
  case Nil
  then show ?case by simp
next
  case (Cons a fs)
  have "eligible c1 a = eligible c2 a" using Cons.prems by simp
  moreover have "collect c1 fs h = collect c2 fs h" for h
    using Cons.prems by (intro Cons.IH) simp
  ultimately show ?case by (simp add: collect_step split: option.splits sum.splits)
qed

section \<open>The second loop of the consolidation\<close>

lemma summaryName_not_daily: "\<not> isDaily (summaryName k)"
  by (simp add: isDaily_def summaryName_def startsWith_def)

lemma existsSync_iff: "existsSync fs nm \<longleftrightarrow> nm \<in> name ` set fs"
  by (auto simp add: existsSync_def list_ex_iff)

lemma unlinkCounted_cases:
  "fst (unlinkCounted nm st) = fst st
   \<or> fst (unlinkCounted nm st) = filter (\<lambda>f. name f \<noteq> nm) (fst st)"
  by (cases st) (simp add: unlinkCounted_def)

lemma unlinkCounted_daily:
  "\<exists>Q. dailyFiles (fst (unlinkCounted nm st)) = filter Q (dailyFiles (fst st))"
proof -
  from unlinkCounted_cases [of nm st] show ?thesis
  proof
    assume "fst (unlinkCounted nm st) = fst st"
    then have "dailyFiles (fst (unlinkCounted nm st)) = filter (\<lambda>f. True) (dailyFiles (fst st))"
      by simp
    then show ?thesis by blast
  next
    assume "fst (unlinkCounted nm st) = filter (\<lambda>f. name f \<noteq> nm) (fst st)"
    then have "dailyFiles (fst (unlinkCounted nm st)) =
        filter (\<lambda>f. name f \<noteq> nm) (dailyFiles (fst st))"
      by (simp add: dailyFiles_def conj_commute)
    then show ?thesis by blast
  qed
qed

lemma fold_unlink_daily:
  "\<exists>Q. dailyFiles (fst (fold unlinkCounted nms st)) = filter Q (dailyFiles (fst st))"
proof (induction nms arbitrary: st)
  case Nil
  have "dailyFiles (fst st) = filter (\<lambda>f. True) (dailyFiles (fst st))" by simp
  then show ?case by (simp del: filter_True) blast
next
  case (Cons nm nms)
  obtain Q1 where q1: "dailyFiles (fst (unlinkCounted nm st)) = filter Q1 (dailyFiles (fst st))"
    using unlinkCounted_daily by blast
  obtain Q2 where q2: "dailyFiles (fst (fold unlinkCounted nms (unlinkCounted nm st))) =
      filter Q2 (dailyFiles (fst (unlinkCounted nm st)))"
    using Cons.IH by blast
  have "dailyFiles (fst (fold unlinkCounted (nm # nms) st)) =
      filter (\<lambda>f. Q1 f \<and> Q2 f) (dailyFiles (fst st))"
    by (simp add: q1 q2)
  then show ?case by blast
qed

lemma unlinkCounted_exists:
  assumes "existsSync (fst st) x" and "nm \<noteq> x"
  shows "existsSync (fst (unlinkCounted nm st)) x"
  using assms unlinkCounted_cases [of nm st]
  by (auto simp add: existsSync_iff)

lemma fold_unlink_exists:
  "existsSync (fst st) x \<Longrightarrow> x \<notin> set nms \<Longrightarrow>
   existsSync (fst (fold unlinkCounted nms st)) x"
proof (induction nms arbitrary: st)
  case Nil
  then show ?case by simp
next
  case (Cons nm nms)
  from Cons.prems have "nm \<noteq> x" and rest: "x \<notin> set nms" by auto
  with Cons.prems(1) have "existsSync (fst (unlinkCounted nm st)) x"
    by (simp add: unlinkCounted_exists)
  then have "existsSync (fst (fold unlinkCounted nms (unlinkCounted nm st))) x"
    using rest by (rule Cons.IH)
  then show ?case by simp
qed

lemma names_overwrite:
  "map name (map (\<lambda>f. if name f = nm then f\<lparr>content := txt, mtime := now\<rparr> else f) fs) =
     map name fs"
  by (induction fs) simp_all

lemma names_writeFileSync:
  "map name (writeFileSync now nm txt fs) =
     (if existsSync fs nm then map name fs else map name fs @ [nm])"
  by (simp add: writeFileSync_def names_overwrite del: map_map)

lemma existsSync_names: "existsSync fs nm \<longleftrightarrow> nm \<in> set (map name fs)"
  by (auto simp add: existsSync_def list_ex_iff)

lemma writeFileSync_exists: "existsSync (writeFileSync now nm txt fs) nm"
  unfolding existsSync_names [of "writeFileSync now nm txt fs"] names_writeFileSync
  by (simp add: existsSync_names)

lemma writeFileSync_keeps:
  "existsSync fs x \<Longrightarrow> existsSync (writeFileSync now nm txt fs) x"
  unfolding existsSync_names [of "writeFileSync now nm txt fs"] names_writeFileSync
  by (simp add: existsSync_names)

lemma writeFileSync_daily:
  "\<not> existsSync fs nm \<Longrightarrow> \<not> isDaily nm \<Longrightarrow>
   dailyFiles (writeFileSync now nm txt fs) = dailyFiles fs"
  by (simp add: writeFileSync_def dailyFiles_def)

lemma writeSummaries_daily:
  "\<exists>Q. dailyFiles (fst (writeSummaries now g st)) = filter Q (dailyFiles (fst st))"
proof (induction now g st rule: writeSummaries.induct)
  case (1 now st)
  have "dailyFiles (fst st) = filter (\<lambda>f. True) (dailyFiles (fst st))" by simp
  then show ?case by (simp del: filter_True) blast
next
  case (2 now key entries gs fs consolidated deleted)
  show ?case
  proof (cases "length entries < 2")
    case True
    with 2(1) show ?thesis by simp
  next
    case long: False
    show ?thesis
    proof (cases "existsSync fs (summaryName key)")
      case True
      with long 2(2) show ?thesis by simp
    next
      case False
      let ?w = "writeFileSync now (summaryName key) (summaryText key entries) fs"
      obtain fs' deleted' where f: "fold unlinkCounted (map fst entries) (?w, deleted) =
          (fs', deleted')"
        by (cases "fold unlinkCounted (map fst entries) (?w, deleted)") auto
      obtain Q1 where q1: "dailyFiles fs' = filter Q1 (dailyFiles ?w)"
        using fold_unlink_daily [of "map fst entries" "(?w, deleted)"] f by auto
      have w: "dailyFiles ?w = dailyFiles fs"
        using False by (simp add: writeFileSync_daily summaryName_not_daily)
      obtain Q2 where q2: "dailyFiles (fst (writeSummaries now gs (fs', Suc consolidated, deleted')))
          = filter Q2 (dailyFiles fs')"
        using 2(3) [OF long False f [symmetric]] by auto
      have "dailyFiles (fst (writeSummaries now ((key, entries) # gs) (fs, consolidated, deleted)))
          = filter (\<lambda>f. Q1 f \<and> Q2 f) (dailyFiles fs)"
        using long False f by (simp add: q1 q2 w)
      then show ?thesis by (simp del: writeSummaries.simps) blast
    qed
  qed
qed


lemma dailyEntries_Cons:
  "dailyEntries ((key, entries) # gs) \<longleftrightarrow>
     list_all (\<lambda>e. isDaily (fst e)) entries \<and> dailyEntries gs"
  by (simp add: dailyEntries_def)

lemma not_daily_not_entry:
  assumes "list_all (\<lambda>e. isDaily (fst e)) entries" and "\<not> isDaily x"
  shows "x \<notin> set (map fst entries)"
  using assms by (auto simp add: list_all_iff)

lemma writeSummaries_keeps:
  "dailyEntries g \<Longrightarrow> \<not> isDaily x \<Longrightarrow> existsSync (fst st) x \<Longrightarrow>
   existsSync (fst (writeSummaries now g st)) x"
proof (induction now g st rule: writeSummaries.induct)
  case (1 now st)
  then show ?case by simp
next
  case (2 now key entries gs fs consolidated deleted)
  from "2.prems"(1) have de: "list_all (\<lambda>e. isDaily (fst e)) entries" and dg: "dailyEntries gs"
    by (simp_all add: dailyEntries_Cons)
  from "2.prems"(3) have ex: "existsSync fs x" by simp
  show ?case
  proof (cases "length entries < 2")
    case True
    with 2(1) [OF True dg "2.prems"(2)] ex show ?thesis by simp
  next
    case long: False
    show ?thesis
    proof (cases "existsSync fs (summaryName key)")
      case True
      with long 2(2) [OF long True dg "2.prems"(2)] ex show ?thesis by simp
    next
      case False
      let ?w = "writeFileSync now (summaryName key) (summaryText key entries) fs"
      obtain fs' deleted' where f: "fold unlinkCounted (map fst entries) (?w, deleted) =
          (fs', deleted')"
        by (cases "fold unlinkCounted (map fst entries) (?w, deleted)") auto
      have "existsSync (fst (?w, deleted)) x" using ex by (simp add: writeFileSync_keeps)
      then have "existsSync (fst (fold unlinkCounted (map fst entries) (?w, deleted))) x"
        using not_daily_not_entry [OF de "2.prems"(2)] by (rule fold_unlink_exists)
      then have "existsSync (fst (fs', Suc consolidated, deleted')) x" using f by simp
      with 2(3) [OF long False f [symmetric] dg "2.prems"(2)] long False f
      show ?thesis by simp
    qed
  qed
qed

lemma writeSummaries_summary:
  "dailyEntries g \<Longrightarrow> (k, es) \<in> set g \<Longrightarrow> 2 \<le> length es \<Longrightarrow>
   existsSync (fst (writeSummaries now g st)) (summaryName k)"
proof (induction now g st rule: writeSummaries.induct)
  case (1 now st)
  then show ?case by simp
next
  case (2 now key entries gs fs consolidated deleted)
  from "2.prems"(1) have de: "list_all (\<lambda>e. isDaily (fst e)) entries" and dg: "dailyEntries gs"
    by (simp_all add: dailyEntries_Cons)
  show ?case
  proof (cases "(k, es) = (key, entries)")
    case head: True
    then have long: "\<not> length entries < 2" using "2.prems"(3) by simp
    show ?thesis
    proof (cases "existsSync fs (summaryName key)")
      case True
      then have "existsSync (fst (fs, consolidated, deleted)) (summaryName k)"
        using head by simp
      with dg have "existsSync (fst (writeSummaries now gs (fs, consolidated, deleted)))
          (summaryName k)"
        by (intro writeSummaries_keeps) (simp_all add: summaryName_not_daily)
      with long True show ?thesis by simp
    next
      case False
      let ?w = "writeFileSync now (summaryName key) (summaryText key entries) fs"
      obtain fs' deleted' where f: "fold unlinkCounted (map fst entries) (?w, deleted) =
          (fs', deleted')"
        by (cases "fold unlinkCounted (map fst entries) (?w, deleted)") auto
      have "existsSync (fst (?w, deleted)) (summaryName key)"
        by (simp add: writeFileSync_exists)
      then have "existsSync (fst (fold unlinkCounted (map fst entries) (?w, deleted)))
          (summaryName key)"
        using not_daily_not_entry [OF de summaryName_not_daily]
        by (rule fold_unlink_exists)
      then have "existsSync (fst (fs', Suc consolidated, deleted')) (summaryName k)"
        using f head by simp
      with dg have "existsSync (fst (writeSummaries now gs (fs', Suc consolidated, deleted')))
          (summaryName k)"
        by (intro writeSummaries_keeps) (simp_all add: summaryName_not_daily)
      with long False f show ?thesis by simp
    qed
  next
    case tail: False
    with "2.prems"(2) have mem: "(k, es) \<in> set gs" by auto
    show ?thesis
    proof (cases "length entries < 2")
      case True
      with 2(1) [OF True dg mem "2.prems"(3)] show ?thesis by simp
    next
      case long: False
      show ?thesis
      proof (cases "existsSync fs (summaryName key)")
        case True
        with long 2(2) [OF long True dg mem "2.prems"(3)] show ?thesis by simp
      next
        case False
        let ?w = "writeFileSync now (summaryName key) (summaryText key entries) fs"
        obtain fs' deleted' where f: "fold unlinkCounted (map fst entries) (?w, deleted) =
            (fs', deleted')"
          by (cases "fold unlinkCounted (map fst entries) (?w, deleted)") auto
        from 2(3) [OF long False f [symmetric] dg mem "2.prems"(3)] long False f
        show ?thesis by simp
      qed
    qed
  qed
qed

lemma writeSummaries_noop:
  "list_all (\<lambda>p. length (snd p) < 2 \<or> existsSync fs (summaryName (fst p))) g \<Longrightarrow>
   writeSummaries now g (fs, c, d) = (fs, c, d)"
  by (induction g) auto

section \<open>Running the consolidation twice\<close>

lemma length_filter_getBrainFiles:
  "length (filter P (getBrainFiles fs)) =
     length (filter (\<lambda>f. endsWith (name f) ''.md'' \<and> P f) fs)"
proof -
  have "filter P (getBrainFiles fs) =
      sort_key mtime (filter P (filter (\<lambda>f. endsWith (name f) ''.md'') fs))"
    by (simp add: getBrainFiles_def filter_sort)
  then have "length (filter P (getBrainFiles fs)) =
      length (filter P (filter (\<lambda>f. endsWith (name f) ''.md'') fs))"
    by simp
  then show ?thesis by (simp add: conj_commute)
qed

lemma set_getBrainFiles:
  "set (getBrainFiles fs) = {f \<in> set fs. endsWith (name f) ''.md''}"
  by (auto simp add: getBrainFiles_def)

lemma daily_filter_le:
  assumes q: "dailyFiles fs1 = filter Q (dailyFiles fs)"
    and p: "\<And>f. P f \<Longrightarrow> isDaily (name f)"
  shows "length (filter P fs1) \<le> length (filter P fs)"
proof -
  have a: "filter P xs = filter P (dailyFiles xs)" for xs
    using p by (auto simp add: dailyFiles_def intro: filter_cong)
  have "length (filter P fs1) = length (filter P (filter Q (dailyFiles fs)))"
    using a [of fs1] q by simp
  also have "\<dots> = length (filter Q (filter P (dailyFiles fs)))"
    by (simp add: conj_commute)
  also have "\<dots> \<le> length (filter P (dailyFiles fs))" by (rule length_filter_le)
  also have "\<dots> = length (filter P fs)" using a [of fs] by simp
  finally show ?thesis .
qed

lemma consolidate_twice:
  assumes run1: "consolidateOldFiles now fs = Inr (fs1, c, d)"
    and same: "\<And>f. f \<in> set fs \<Longrightarrow> isDaily (name f) \<Longrightarrow>
        (mtime f < now - 7 * 24 * 60 * 60 * 1000) = (mtime f < now2 - 7 * 24 * 60 * 60 * 1000)"
  shows "consolidateOldFiles now2 fs1 = Inr (fs1, 0, 0)"
proof -
  let ?cut = "now - 7 * 24 * 60 * 60 * 1000"
  let ?cut2 = "now2 - 7 * 24 * 60 * 60 * 1000"
  from run1 obtain g1 where c1: "collect ?cut (getBrainFiles fs) [] = Inr g1"
    and w1: "writeSummaries now g1 (fs, 0, 0) = (fs1, c, d)"
    by (auto simp add: consolidateOldFiles_def split: sum.splits)
  obtain Q where q: "dailyFiles fs1 = filter Q (dailyFiles fs)"
    using writeSummaries_daily [of now g1 "(fs, 0, 0)"] w1 by auto
  have sub: "f \<in> set fs" if "f \<in> set fs1" "isDaily (name f)" for f
  proof -
    from that have "f \<in> set (dailyFiles fs1)" by (simp add: dailyFiles_def)
    with q show ?thesis by (simp add: dailyFiles_def)
  qed
  have el: "eligible ?cut2 f = eligible ?cut f" if "f \<in> set (getBrainFiles fs1)" for f
  proof (cases "isDaily (name f)")
    case True
    from that have "f \<in> set fs1" by (simp add: set_getBrainFiles)
    then have "f \<in> set fs" using True by (rule sub)
    with True same [of f] show ?thesis by (simp add: eligible_def)
  next
    case False
    then show ?thesis by (simp add: eligible_def)
  qed
  have c2eq: "collect ?cut2 (getBrainFiles fs1) [] = collect ?cut (getBrainFiles fs1) []"
    by (rule collect_cong_cutoff) (rule el)
  have noerr: "fileKey f \<noteq> Some (Inl e)"
    if "f \<in> set (getBrainFiles fs1)" "eligible ?cut f" for f e
  proof -
    from that(1) have "f \<in> set fs1" and md: "endsWith (name f) ''.md''"
      by (simp_all add: set_getBrainFiles)
    moreover from that(2) have "isDaily (name f)" by (simp add: eligible_def)
    ultimately have "f \<in> set fs" by (simp add: sub)
    with md have "f \<in> set (getBrainFiles fs)" by (simp add: set_getBrainFiles)
    with c1 show ?thesis using that(2) by (rule collect_no_error)
  qed
  obtain g2 where c2: "collect ?cut (getBrainFiles fs1) [] = Inr g2"
    using collect_total [of "getBrainFiles fs1" ?cut "[]"] noerr by blast
  have d1: "dailyEntries g1"
    using c1 by (rule collect_dailyEntries) (simp add: dailyEntries_def)
  have dist2: "distinct (map fst g2)"
    using c2 by (rule collect_distinct) simp
  have len1: "groupLen k g1 = length (filter (inGroup ?cut k) (getBrainFiles fs))" for k
    using collect_groupLen [OF c1, of k] by (simp add: groupLen_def)
  have len2: "groupLen k g2 = length (filter (inGroup ?cut k) (getBrainFiles fs1))" for k
    using collect_groupLen [OF c2, of k] by (simp add: groupLen_def)
  have le: "groupLen k g2 \<le> groupLen k g1" for k
    unfolding len1 len2 length_filter_getBrainFiles
    by (rule daily_filter_le [OF q]) (simp add: inGroup_def eligible_def)
  have "list_all (\<lambda>p. length (snd p) < 2 \<or> existsSync fs1 (summaryName (fst p))) g2"
    unfolding list_all_iff
  proof
    fix p
    assume pm: "p \<in> set g2"
    obtain k es2 where p: "p = (k, es2)" by (cases p)
    show "length (snd p) < 2 \<or> existsSync fs1 (summaryName (fst p))"
    proof (cases "length es2 < 2")
      case True
      with p show ?thesis by simp
    next
      case False
      from dist2 pm p have "map_of g2 k = Some es2" by simp
      then have "groupLen k g2 = length es2" by (simp add: groupLen_def)
      with False le [of k] have two: "2 \<le> groupLen k g1" by simp
      then obtain es1 where m1: "map_of g1 k = Some es1" and l1: "2 \<le> length es1"
        by (auto simp add: groupLen_def split: option.splits)
      from m1 have "(k, es1) \<in> set g1" by (rule map_of_SomeD)
      with d1 have "existsSync (fst (writeSummaries now g1 (fs, 0, 0))) (summaryName k)"
        using l1 by (rule writeSummaries_summary)
      with w1 p show ?thesis by simp
    qed
  qed
  then have "writeSummaries now2 g2 (fs1, 0, 0) = (fs1, 0, 0)"
    by (rule writeSummaries_noop)
  with c2 c2eq show ?thesis by (simp add: consolidateOldFiles_def)
qed

lemma consolidate_error_again:
  assumes run1: "consolidateOldFiles now fs = Inl e"
    and same: "\<And>f. f \<in> set fs \<Longrightarrow> isDaily (name f) \<Longrightarrow>
        (mtime f < now - 7 * 24 * 60 * 60 * 1000) = (mtime f < now2 - 7 * 24 * 60 * 60 * 1000)"
  shows "consolidateOldFiles now2 fs = Inl e"
proof -
  have "eligible (now2 - 7 * 24 * 60 * 60 * 1000) f = eligible (now - 7 * 24 * 60 * 60 * 1000) f"
    if "f \<in> set (getBrainFiles fs)" for f
  proof (cases "isDaily (name f)")
    case True
    from that have "f \<in> set fs" by (simp add: set_getBrainFiles)
    with True same [of f] show ?thesis by (simp add: eligible_def)
  next
    case False
    then show ?thesis by (simp add: eligible_def)
  qed
  then have "collect (now2 - 7 * 24 * 60 * 60 * 1000) (getBrainFiles fs) [] =
      collect (now - 7 * 24 * 60 * 60 * 1000) (getBrainFiles fs) []"
    by (intro collect_cong_cutoff)
  with run1 show ?thesis by (simp add: consolidateOldFiles_def split: sum.splits)
qed

text \<open>
  C7, as amended. When a run of the consolidation returns, a second run on the directory
  it left changes nothing and counts zero summaries and zero deletions, provided no
  daily file is older than 7 days at the second run without having been so at the first
  (so, in particular, when the second run reads the same clock); a run that throws on
  an invalid date throws again under the same proviso, and has changed nothing. A group
  with fewer than 2 entries is passed over by the second loop.
\<close>

theorem consolidate_idempotent:
  "(consolidateOldFiles now fs = Inr (fs1, c, d)
      \<and> list_all (\<lambda>f. isDaily (name f) \<longrightarrow>
            (mtime f < now - 7 * 24 * 60 * 60 * 1000) =
            (mtime f < now2 - 7 * 24 * 60 * 60 * 1000)) fs
      \<longrightarrow> consolidateOldFiles now2 fs1 = Inr (fs1, 0, 0))
   \<and> (consolidateOldFiles now fs = Inr (fs1, c, d)
      \<longrightarrow> consolidateOldFiles now fs1 = Inr (fs1, 0, 0))
   \<and> (consolidateOldFiles now fs = Inl e
      \<and> list_all (\<lambda>f. isDaily (name f) \<longrightarrow>
            (mtime f < now - 7 * 24 * 60 * 60 * 1000) =
            (mtime f < now2 - 7 * 24 * 60 * 60 * 1000)) fs
      \<longrightarrow> consolidateOldFiles now2 fs = Inl e)
   \<and> (length entries < 2
      \<longrightarrow> writeSummaries now ((key, entries) # gs) (fs, c, d) =
          writeSummaries now gs (fs, c, d))"
proof (intro conjI impI)
  assume h: "consolidateOldFiles now fs = Inr (fs1, c, d)
      \<and> list_all (\<lambda>f. isDaily (name f) \<longrightarrow>
            (mtime f < now - 7 * 24 * 60 * 60 * 1000) =
            (mtime f < now2 - 7 * 24 * 60 * 60 * 1000)) fs"
  then have run: "consolidateOldFiles now fs = Inr (fs1, c, d)" by simp
  from h have same: "(mtime f < now - 7 * 24 * 60 * 60 * 1000) =
      (mtime f < now2 - 7 * 24 * 60 * 60 * 1000)" if "f \<in> set fs" "isDaily (name f)" for f
    using that by (simp add: list_all_iff)
  from run same show "consolidateOldFiles now2 fs1 = Inr (fs1, 0, 0)"
    by (rule consolidate_twice)
next
  assume "consolidateOldFiles now fs = Inr (fs1, c, d)"
  then show "consolidateOldFiles now fs1 = Inr (fs1, 0, 0)"
    by (rule consolidate_twice) simp
next
  assume h: "consolidateOldFiles now fs = Inl e
      \<and> list_all (\<lambda>f. isDaily (name f) \<longrightarrow>
            (mtime f < now - 7 * 24 * 60 * 60 * 1000) =
            (mtime f < now2 - 7 * 24 * 60 * 60 * 1000)) fs"
  then have run: "consolidateOldFiles now fs = Inl e" by simp
  from h have same: "(mtime f < now - 7 * 24 * 60 * 60 * 1000) =
      (mtime f < now2 - 7 * 24 * 60 * 60 * 1000)" if "f \<in> set fs" "isDaily (name f)" for f
    using that by (simp add: list_all_iff)
  from run same show "consolidateOldFiles now2 fs = Inl e"
    by (rule consolidate_error_again)
next
  assume "length entries < 2"
  then show "writeSummaries now ((key, entries) # gs) (fs, c, d) =
      writeSummaries now gs (fs, c, d)"
    by simp
qed

theorem consolidate_idempotent_witness:
  "consolidateOldFiles 1705000000000 twoDaily = Inr (afterFirstRun, 1, 2)
   \<and> map name afterFirstRun = [''weekly-summary-2024-01-01.md'']
   \<and> consolidateOldFiles 1705100000000 afterFirstRun = Inr (afterFirstRun, 0, 0)
   \<and> consolidateOldFiles 1705000000000 afterFirstRun = Inr (afterFirstRun, 0, 0)
   \<and> consolidateOldFiles 1705000000000 [badScan] = Inl RangeError
   \<and> consolidateOldFiles 1705100000000 [badScan] = Inl RangeError
   \<and> writeSummaries 1705000000000
        [(''2024-01-01'', [(''morning-brief-2024-01-02.md'', ''# Morning Brief'')])]
        ([hd twoDaily], 0, 0) = ([hd twoDaily], 0, 0)"
proof -
  have run: "consolidateOldFiles 1705000000000 twoDaily = Inr (afterFirstRun, 1, 2)"
    by code_simp
  have names: "map name afterFirstRun = [''weekly-summary-2024-01-01.md'']"
    by code_simp
  have same: "list_all (\<lambda>f. isDaily (name f) \<longrightarrow>
        (mtime f < 1705000000000 - 7 * 24 * 60 * 60 * 1000) =
        (mtime f < 1705100000000 - 7 * 24 * 60 * 60 * 1000)) twoDaily"
    by code_simp
  have later: "consolidateOldFiles 1705100000000 afterFirstRun = Inr (afterFirstRun, 0, 0)"
    by (rule consolidate_idempotent [THEN conjunct1, THEN mp, OF conjI [OF run same]])
  have again: "consolidateOldFiles 1705000000000 afterFirstRun = Inr (afterFirstRun, 0, 0)"
    by (rule consolidate_idempotent [THEN conjunct2, THEN conjunct1, THEN mp, OF run])
  have bad: "consolidateOldFiles 1705000000000 [badScan] = Inl RangeError"
    by code_simp
  have sameBad: "list_all (\<lambda>f. isDaily (name f) \<longrightarrow>
        (mtime f < 1705000000000 - 7 * 24 * 60 * 60 * 1000) =
        (mtime f < 1705100000000 - 7 * 24 * 60 * 60 * 1000)) [badScan]"
    by code_simp
  have badAgain: "consolidateOldFiles 1705100000000 [badScan] = Inl RangeError"
    by (rule consolidate_idempotent [THEN conjunct2, THEN conjunct2, THEN conjunct1, THEN mp,
          OF conjI [OF bad sameBad]])
  have short: "length [(''morning-brief-2024-01-02.md'', ''# Morning Brief'')] < 2"
    by simp
  have "writeSummaries 1705000000000
        ((''2024-01-01'', [(''morning-brief-2024-01-02.md'', ''# Morning Brief'')]) # [])
        ([hd twoDaily], 0, 0) =
      writeSummaries 1705000000000 [] ([hd twoDaily], 0, 0)"
    by (rule consolidate_idempotent [THEN conjunct2, THEN conjunct2, THEN conjunct2, THEN mp,
          OF short])
  then have single: "writeSummaries 1705000000000
        [(''2024-01-01'', [(''morning-brief-2024-01-02.md'', ''# Morning Brief'')])]
        ([hd twoDaily], 0, 0) = ([hd twoDaily], 0, 0)"
    by (simp only: writeSummaries.simps(1))
  from run names later again bad badAgain single show ?thesis by (intro conjI)
qed

text \<open>C7 as stated fails when the clock moves on between the runs: at noon on
  2024-01-09 the two daily files are not yet a week old and the run does nothing; two
  days later, with nothing added, the run writes a summary and deletes both files.\<close>

theorem consolidate_later_run_writes:
  "consolidateOldFiles 1704801600000 twoDaily = Inr (twoDaily, 0, 0)
   \<and> map_sum id (\<lambda>r. (map name (fst r), snd r)) (consolidateOldFiles 1704974400000 twoDaily) =
       Inr ([''weekly-summary-2024-01-01.md''], 1, 2)"
  by code_simp

end
